theory Spec2Isabelle
  imports Main "HOL-Library.Multiset"
begin

section \<open>JavaScript values\<close>

text \<open>
  The values that flow through \<^verbatim>\<open>src/index.js\<close>: user values, the entry envelope
  \<^verbatim>\<open>{ value, expires }\<close>, the raw forms an adapter hands back, and the \<^verbatim>\<open>ttl\<close>
  argument. Numbers are the integers (\<^verbatim>\<open>Date.now()\<close> and a ttl in milliseconds);
  fractions, NaN and the infinities are outside this type. An object is the list of its
  own properties in enumeration order.
\<close>

datatype jsval =
    Undefined
  | Null
  | Bool bool
  | Num int
  | Str string
  | Obj "(string \<times> jsval) list"
  | Arr "jsval list"

datatype error =
    TypeError
  | RangeError
  | CodecError string
  | AdapterError string

text \<open>
  Reading a property \<^verbatim>\<open>x.name\<close>, for the names the source reads (\<^verbatim>\<open>expires\<close>,
  \<^verbatim>\<open>value\<close>): \<^verbatim>\<open>undefined\<close> and \<^verbatim>\<open>null\<close> throw a TypeError, an object
  yields the property or \<^verbatim>\<open>undefined\<close>, every other value has no such property.
\<close>

fun get_prop :: "jsval \<Rightarrow> string \<Rightarrow> error + jsval" where
  "get_prop Undefined name = Inl TypeError"
| "get_prop Null name = Inl TypeError"
| "get_prop (Obj kvs) name = Inr (case map_of kvs name of Some v \<Rightarrow> v | None \<Rightarrow> Undefined)"
| "get_prop v name = Inr Undefined"

section \<open>Options, adapter and facade\<close>

text \<open>
  The per-call options object \<^verbatim>\<open>opts\<close> with the two fields the source reads,
  \<^verbatim>\<open>opts.raw\<close> (read for its truth value) and \<^verbatim>\<open>opts.concurrency\<close> (a number,
  or absent). An omitted \<^verbatim>\<open>opts\<close> argument is \<open>None\<close>.
\<close>

record call_opts =
  raw :: bool
  call_concurrency :: "int option"

text \<open>
  An asynchronous operation is a transition of the world \<open>'w\<close> the adapter lives in
  that settles with a rejection (\<open>Inl\<close>) or a value (\<open>Inr\<close>). The world holds
  whatever the adapter stores and the wall clock. One call of the adapter is one
  transition: calls that are in flight together take effect one after the other, in an
  order the program does not choose.
\<close>

type_synonym ('w, 'a) promise = "'w \<Rightarrow> (error + 'a) \<times> 'w"

text \<open>
  The storage adapter \<^verbatim>\<open>this.opts.store\<close>: \<^verbatim>\<open>get\<close>, \<^verbatim>\<open>set\<close>, \<^verbatim>\<open>delete\<close>,
  \<^verbatim>\<open>clear\<close>, and the batch forms \<^verbatim>\<open>mget\<close> and \<^verbatim>\<open>mset\<close> that an adapter may or may
  not have (\<^verbatim>\<open>if (store.mget)\<close>). \<^verbatim>\<open>get\<close> receives a second argument because
  \<^verbatim>\<open>mget\<close> hands \<^verbatim>\<open>store.get.bind(store)\<close> to the mapper, which calls it with
  \<^verbatim>\<open>(key, idx)\<close>.
\<close>

record 'w adapter =
  store_get :: "string \<Rightarrow> jsval \<Rightarrow> ('w, jsval) promise"
  store_set :: "string \<Rightarrow> jsval \<Rightarrow> jsval \<Rightarrow> ('w, jsval) promise"
  store_delete :: "string \<Rightarrow> ('w, jsval) promise"
  store_clear :: "('w, jsval) promise"
  store_mget :: "(string list \<Rightarrow> int option \<Rightarrow> ('w, jsval list) promise) option"
  store_mset :: "(string list \<Rightarrow> jsval list \<Rightarrow> jsval \<Rightarrow> int option \<Rightarrow> ('w, jsval) promise) option"

text \<open>
  The facade: \<^verbatim>\<open>this.opts\<close> after the constructor has merged the defaults, and the
  clock \<^verbatim>\<open>Date.now()\<close>, which reads the world.
\<close>

record 'w keyv =
  namespace :: string
  ttl :: jsval
  serialize :: "jsval \<Rightarrow> error + jsval"
  deserialize :: "string \<Rightarrow> error + jsval"
  store :: "'w adapter"
  concurrency :: "int option"
  date_now :: "'w \<Rightarrow> int"

section \<open>Single-key operations\<close>

text \<open>\<^verbatim>\<open>_getKeyPrefix(key)\<close>: the template \<^verbatim>\<open>`${this.opts.namespace}:${key}`\<close>.\<close>

definition getKeyPrefix :: "'w keyv \<Rightarrow> string \<Rightarrow> string" where
  "getKeyPrefix k key = namespace k @ '':'' @ key"

text \<open>\<^verbatim>\<open>delete(key)\<close>: \<^verbatim>\<open>store.delete(keyPrefixed)\<close>.\<close>

definition delete :: "'w keyv \<Rightarrow> string \<Rightarrow> ('w, jsval) promise" where
  "delete k key w = store_delete (store k) (getKeyPrefix k key) w"

text \<open>\<^verbatim>\<open>clear()\<close>: \<^verbatim>\<open>store.clear()\<close>.\<close>

definition clear :: "'w keyv \<Rightarrow> ('w, jsval) promise" where
  "clear k w = store_clear (store k) w"

text \<open>
  The first \<^verbatim>\<open>.then\<close> of \<^verbatim>\<open>_getPostprocess\<close>:
  \<^verbatim>\<open>(typeof data === 'string') ? this.opts.deserialize(data) : data\<close>.
\<close>

definition decode :: "'w keyv \<Rightarrow> jsval \<Rightarrow> error + jsval" where
  "decode k data = (case data of Str s \<Rightarrow> deserialize k s | _ \<Rightarrow> Inr data)"

text \<open>\<^verbatim>\<open>typeof data.expires === 'number' && Date.now() > data.expires\<close>.\<close>

definition expired :: "jsval \<Rightarrow> int \<Rightarrow> bool" where
  "expired ex now = (case ex of Num t \<Rightarrow> now > t | _ \<Rightarrow> False)"

text \<open>\<^verbatim>\<open>opts && opts.raw\<close>, as a condition.\<close>

definition wants_raw :: "call_opts option \<Rightarrow> bool" where
  "wants_raw opts = (case opts of None \<Rightarrow> False | Some o' \<Rightarrow> raw o')"

text \<open>
  The second \<^verbatim>\<open>.then\<close> of \<^verbatim>\<open>_getPostprocess\<close>: a miss for \<^verbatim>\<open>undefined\<close>, then the
  read of \<^verbatim>\<open>data.expires\<close> (which throws on \<^verbatim>\<open>null\<close>), the awaited
  \<^verbatim>\<open>this.delete(key)\<close> of an expired entry, and the result \<^verbatim>\<open>data\<close> or
  \<^verbatim>\<open>data.value\<close>.
\<close>

definition expiration :: "'w keyv \<Rightarrow> string \<Rightarrow> call_opts option \<Rightarrow> jsval \<Rightarrow> ('w, jsval) promise" where
  "expiration k key opts data w =
     (if data = Undefined then (Inr Undefined, w)
      else case get_prop data ''expires'' of
          Inl e \<Rightarrow> (Inl e, w)
        | Inr ex \<Rightarrow>
            if expired ex (date_now k w)
            then (case delete k key w of
                    (Inl e, w') \<Rightarrow> (Inl e, w')
                  | (Inr b, w') \<Rightarrow> (Inr Undefined, w'))
            else if wants_raw opts then (Inr data, w)
            else (get_prop data ''value'', w))"

text \<open>\<^verbatim>\<open>_getPostprocess(key, data, opts)\<close>.\<close>

definition getPostprocess :: "'w keyv \<Rightarrow> string \<Rightarrow> jsval \<Rightarrow> call_opts option \<Rightarrow> ('w, jsval) promise" where
  "getPostprocess k key data opts w =
     (case decode k data of
        Inl e \<Rightarrow> (Inl e, w)
      | Inr d \<Rightarrow> expiration k key opts d w)"

text \<open>
  \<^verbatim>\<open>get(key, opts)\<close>: \<^verbatim>\<open>store.get(keyPrefixed)\<close>, then \<^verbatim>\<open>_getPostprocess\<close> under
  the logical key.
\<close>

definition get :: "'w keyv \<Rightarrow> string \<Rightarrow> call_opts option \<Rightarrow> ('w, jsval) promise" where
  "get k key opts w =
     (case store_get (store k) (getKeyPrefix k key) Undefined w of
        (Inl e, w') \<Rightarrow> (Inl e, w')
      | (Inr data, w') \<Rightarrow> getPostprocess k key data opts w')"

text \<open>
  The expiry timestamp of \<^verbatim>\<open>_setPreprocess\<close>: the default replaces an
  \<^verbatim>\<open>undefined\<close> ttl, \<^verbatim>\<open>0\<close> becomes \<^verbatim>\<open>undefined\<close>, and a number gives
  \<^verbatim>\<open>Date.now() + ttl\<close>, anything else \<^verbatim>\<open>null\<close>.
\<close>

definition expires_for :: "'w keyv \<Rightarrow> jsval \<Rightarrow> 'w \<Rightarrow> jsval" where
  "expires_for k t w =
     (let t1 = (if t = Undefined then ttl k else t);
          t2 = (if t1 = Num 0 then Undefined else t1)
      in case t2 of Num n \<Rightarrow> Num (date_now k w + n) | _ \<Rightarrow> Null)"

text \<open>The envelope \<^verbatim>\<open>{ value, expires }\<close>.\<close>

definition entry :: "jsval \<Rightarrow> jsval \<Rightarrow> jsval" where
  "entry v ex = Obj [(''value'', v), (''expires'', ex)]"

text \<open>\<^verbatim>\<open>_setPreprocess(value, ttl)\<close>.\<close>

definition setPreprocess :: "'w keyv \<Rightarrow> jsval \<Rightarrow> jsval \<Rightarrow> 'w \<Rightarrow> error + jsval" where
  "setPreprocess k v t w = serialize k (entry v (expires_for k t w))"

text \<open>
  \<^verbatim>\<open>set(key, value, ttl)\<close>: the encoded entry goes to \<^verbatim>\<open>store.set\<close> with the
  caller's \<^verbatim>\<open>ttl\<close>; the result is \<^verbatim>\<open>true\<close>.
\<close>

definition set_keyv :: "'w keyv \<Rightarrow> string \<Rightarrow> jsval \<Rightarrow> jsval \<Rightarrow> ('w, jsval) promise" where
  "set_keyv k key v t w =
     (case setPreprocess k v t w of
        Inl e \<Rightarrow> (Inl e, w)
      | Inr enc \<Rightarrow>
          (case store_set (store k) (getKeyPrefix k key) enc t w of
             (Inl e, w') \<Rightarrow> (Inl e, w')
           | (Inr r, w') \<Rightarrow> (Inr (Bool True), w')))"

section \<open>The default in-memory store\<close>

text \<open>
  \<^verbatim>\<open>loadStore\<close> without \<^verbatim>\<open>adapter\<close> or \<^verbatim>\<open>uri\<close> returns \<^verbatim>\<open>new Map()\<close>. Its world
  is the map's content and the wall clock. A \<^verbatim>\<open>Map\<close> has no \<^verbatim>\<open>mget\<close> or
  \<^verbatim>\<open>mset\<close>, ignores the arguments it does not know, and never throws. \<^verbatim>\<open>Map.get\<close>
  yields \<^verbatim>\<open>undefined\<close> for an absent key and \<^verbatim>\<open>Map.delete\<close> tells whether the key
  was there. \<^verbatim>\<open>Map.set\<close> and \<^verbatim>\<open>Map.clear\<close> return values the facade drops
  (\<open>Undefined\<close> stands for them).
\<close>

record mem_world =
  entries :: "string \<Rightarrow> jsval option"
  time :: int

definition map_get :: "string \<Rightarrow> jsval \<Rightarrow> (mem_world, jsval) promise" where
  "map_get key extra w = (Inr (case entries w key of Some v \<Rightarrow> v | None \<Rightarrow> Undefined), w)"

definition map_set :: "string \<Rightarrow> jsval \<Rightarrow> jsval \<Rightarrow> (mem_world, jsval) promise" where
  "map_set key v t w = (Inr Undefined, w\<lparr>entries := (entries w)(key \<mapsto> v)\<rparr>)"

definition map_delete :: "string \<Rightarrow> (mem_world, jsval) promise" where
  "map_delete key w =
     (Inr (Bool (entries w key \<noteq> None)), w\<lparr>entries := (entries w)(key := None)\<rparr>)"

definition map_clear :: "(mem_world, jsval) promise" where
  "map_clear w = (Inr Undefined, w\<lparr>entries := (\<lambda>key. None)\<rparr>)"

definition Map_store :: "mem_world adapter" where
  "Map_store =
     \<lparr>store_get = map_get, store_set = map_set, store_delete = map_delete,
      store_clear = map_clear, store_mget = None, store_mset = None\<rparr>"

section \<open>The concurrency-limited mapper\<close>

text \<open>
  \<^verbatim>\<open>concurrentMap(items, func, { concurrency })\<close>. An item is a value or a pending
  value; \<^verbatim>\<open>await el\<close> yields the value or rejects, so an item is \<open>error + 'a\<close>.
  \<^verbatim>\<open>func(el, idx)\<close> is an asynchronous operation on the world.

  Which in-flight call settles next is decided outside the program. The schedule makes
  that choice explicit: its head, modulo the number of in-flight calls, names the one
  that settles next (the first one when the schedule is used up). A call takes effect on
  the world when it settles. After a rejection the other calls go on, as in the source;
  the run ends when no call is in flight, and the world it returns is the world then.
\<close>

record ('a, 'r, 'w) pool =
  schedule :: "nat list"
  inflight :: "(nat \<times> (error + 'a)) list"
  cursor :: "(nat \<times> (error + 'a)) list"
  failure :: "error option"
  results :: "(nat \<times> 'r) list"
  world :: 'w

definition pick :: "nat list \<Rightarrow> nat \<Rightarrow> nat" where
  "pick sched n = (case sched of [] \<Rightarrow> 0 | s # _ \<Rightarrow> s mod n)"

definition remove_nth :: "nat \<Rightarrow> 'a list \<Rightarrow> 'a list" where
  "remove_nth j xs = take j xs @ drop (Suc j) xs"

text \<open>\<^verbatim>\<open>Promise.all\<close> reports the first rejection in time.\<close>

definition first_failure :: "error option \<Rightarrow> error \<Rightarrow> error option" where
  "first_failure f e = (case f of None \<Rightarrow> Some e | Some e0 \<Rightarrow> Some e0)"

text \<open>
  One in-flight call settles. In the worker loop
  \<^verbatim>\<open>for (const [idx, el] of iterator) { const result = await func(await el, idx); results.push({ idx, result }); }\<close>
  a rejection of \<^verbatim>\<open>el\<close> or of \<^verbatim>\<open>func\<close> ends that worker (the others go on, and
  the shared iterator stays open); a result is pushed, and the worker takes the next
  pair from the shared iterator, or ends when there is none.
\<close>

definition worker_step ::
  "('a \<Rightarrow> nat \<Rightarrow> ('w, 'r) promise) \<Rightarrow> ('a, 'r, 'w) pool \<Rightarrow> ('a, 'r, 'w) pool" where
  "worker_step func st =
     (let j = pick (schedule st) (length (inflight st));
          idx = fst (inflight st ! j);
          el = snd (inflight st ! j);
          rest = remove_nth j (inflight st);
          st1 = st\<lparr>schedule := tl (schedule st)\<rparr>
      in case el of
           Inl e \<Rightarrow> st1\<lparr>inflight := rest, failure := first_failure (failure st) e\<rparr>
         | Inr x \<Rightarrow>
             (case func x idx (world st) of
                (Inl e, w') \<Rightarrow>
                  st1\<lparr>inflight := rest, failure := first_failure (failure st) e, world := w'\<rparr>
              | (Inr r, w') \<Rightarrow>
                  (case cursor st of
                     [] \<Rightarrow> st1\<lparr>inflight := rest, results := results st @ [(idx, r)], world := w'\<rparr>
                   | c # cs \<Rightarrow>
                       st1\<lparr>inflight := (inflight st)[j := c], cursor := cs,
                           results := results st @ [(idx, r)], world := w'\<rparr>)))"

function run_workers ::
  "('a \<Rightarrow> nat \<Rightarrow> ('w, 'r) promise) \<Rightarrow> ('a, 'r, 'w) pool \<Rightarrow> ('a, 'r, 'w) pool" where
  "run_workers func st =
     (if inflight st = [] then st else run_workers func (worker_step func st))"
  by pat_completeness auto
termination
proof (relation "measure (\<lambda>(func, st). length (inflight st) + length (cursor st))")
  show "wf (measure (\<lambda>(func :: 'a \<Rightarrow> nat \<Rightarrow> ('w, 'r) promise, st :: ('a, 'r, 'w) pool).
          length (inflight st) + length (cursor st)))"
    by simp
next
  fix func :: "'a \<Rightarrow> nat \<Rightarrow> ('w, 'r) promise" and st :: "('a, 'r, 'w) pool"
  assume ne: "inflight st \<noteq> []"
  then have j: "pick (schedule st) (length (inflight st)) < length (inflight st)"
    by (simp add: pick_def split: list.split)
  then have "length (inflight (worker_step func st)) + length (cursor (worker_step func st))
      < length (inflight st) + length (cursor st)"
    by (auto simp: worker_step_def Let_def remove_nth_def split: sum.split prod.split list.split)
  then show "((func, worker_step func st), (func, st))
      \<in> measure (\<lambda>(func, st). length (inflight st) + length (cursor st))"
    by simp
qed

declare run_workers.simps [simp del]

text \<open>
  \<^verbatim>\<open>Promise.all\<close> of the unbounded mode puts the value of the i-th promise at
  position i, whatever the order in which they settled.
\<close>

definition promise_all :: "nat \<Rightarrow> (nat \<times> 'r) list \<Rightarrow> 'r list" where
  "promise_all n rs = map (\<lambda>i. the (map_of rs i)) [0..<n]"

text \<open>
  The pool at the start: the first \<open>n\<close> pairs of \<^verbatim>\<open>resolvedItems.entries()\<close>
  are in flight, the shared iterator holds the others.
\<close>

definition start_pool :: "nat list \<Rightarrow> nat \<Rightarrow> (error + 'a) list \<Rightarrow> 'w \<Rightarrow> ('a, 'r, 'w) pool" where
  "start_pool sched n items w =
     \<lparr>schedule = sched, inflight = take n (enumerate 0 items),
      cursor = drop n (enumerate 0 items), failure = None, results = [], world = w\<rparr>"

text \<open>
  The unbounded mode:
  \<^verbatim>\<open>Promise.all((await items).map(async (el, idx) => func(await el, idx)))\<close>.
  Every call is in flight from the start.
\<close>

definition unbounded_map ::
  "(error + 'a) list \<Rightarrow> ('a \<Rightarrow> nat \<Rightarrow> ('w, 'r) promise) \<Rightarrow> nat list \<Rightarrow> ('w, 'r list) promise" where
  "unbounded_map items func sched w =
     (let st = run_workers func (start_pool sched (length items) items w)
      in (case failure st of
            Some e \<Rightarrow> Inl e
          | None \<Rightarrow> Inr (promise_all (length items) (results st)),
          world st))"

text \<open>
  The bounded mode with \<open>n\<close> workers: each worker takes its first pair from the shared
  iterator before any call settles; when all workers have ended,
  \<^verbatim>\<open>results.sort((a, b) => a.idx - b.idx).map(el => el.result)\<close>.
\<close>

definition bounded_map ::
  "nat \<Rightarrow> (error + 'a) list \<Rightarrow> ('a \<Rightarrow> nat \<Rightarrow> ('w, 'r) promise) \<Rightarrow> nat list
     \<Rightarrow> ('w, 'r list) promise" where
  "bounded_map n items func sched w =
     (let st = run_workers func (start_pool sched n items w)
      in (case failure st of
            Some e \<Rightarrow> Inl e
          | None \<Rightarrow> Inr (map snd (sort_key fst (results st))),
          world st))"

text \<open>
  \<^verbatim>\<open>concurrentMap\<close>: unbounded when \<^verbatim>\<open>!concurrency || concurrency < 0\<close>, else
  \<^verbatim>\<open>Math.min(resolvedItems.length, concurrency)\<close> workers.
\<close>

definition concurrentMap ::
  "(error + 'a) list \<Rightarrow> ('a \<Rightarrow> nat \<Rightarrow> ('w, 'r) promise) \<Rightarrow> int option \<Rightarrow> nat list
     \<Rightarrow> ('w, 'r list) promise" where
  "concurrentMap items func conc sched w =
     (case conc of
        None \<Rightarrow> unbounded_map items func sched w
      | Some c \<Rightarrow>
          if c = 0 \<or> c < 0 then unbounded_map items func sched w
          else bounded_map (min (length items) (nat c)) items func sched w)"

text \<open>
  \<^verbatim>\<open>zip(a, b)\<close>: \<^verbatim>\<open>a.map((k, i) => [k, b[i]])\<close>; reading \<^verbatim>\<open>b\<close> past its end yields
  \<^verbatim>\<open>undefined\<close>.
\<close>

definition zip_js :: "'a list \<Rightarrow> jsval list \<Rightarrow> ('a \<times> jsval) list" where
  "zip_js a b = map (\<lambda>i. (a ! i, if i < length b then b ! i else Undefined)) [0..<length a]"

section \<open>Batch operations\<close>

text \<open>\<^verbatim>\<open>(opts && opts.concurrency) || this.opts.concurrency\<close>; \<^verbatim>\<open>0\<close> is falsy.\<close>

definition resolve_concurrency :: "call_opts option \<Rightarrow> int option \<Rightarrow> int option" where
  "resolve_concurrency opts dflt =
     (case (case opts of None \<Rightarrow> None | Some o' \<Rightarrow> call_concurrency o') of
        None \<Rightarrow> dflt
      | Some c \<Rightarrow> if c = 0 then dflt else Some c)"

text \<open>
  \<^verbatim>\<open>mget(keys, opts)\<close>. The two runs of the mapper have a schedule each.
\<close>

definition mget ::
  "'w keyv \<Rightarrow> string list \<Rightarrow> call_opts option \<Rightarrow> nat list \<times> nat list \<Rightarrow> ('w, jsval list) promise" where
  "mget k keys opts sched w =
     (let keysPrefixed = map (getKeyPrefix k) keys;
          conc = resolve_concurrency opts (concurrency k)
      in case (case store_mget (store k) of
                 Some native \<Rightarrow> native keysPrefixed conc w
               | None \<Rightarrow>
                   concurrentMap (map Inr keysPrefixed)
                     (\<lambda>key idx. store_get (store k) key (Num (int idx))) conc (fst sched) w) of
           (Inl e, w') \<Rightarrow> (Inl e, w')
         | (Inr data, w') \<Rightarrow>
             concurrentMap (map Inr (zip_js keys data))
               (\<lambda>(key, d) idx. getPostprocess k key d opts) conc (snd sched) w')"

text \<open>
  The \<^verbatim>\<open>ttl\<close> position of \<^verbatim>\<open>mset\<close> holds \<^verbatim>\<open>undefined\<close>, \<^verbatim>\<open>null\<close>, a number,
  or an options object (the source tests \<^verbatim>\<open>typeof ttl === 'object'\<close>).
\<close>

datatype ttl_arg = TtlUndefined | TtlNull | TtlNum int | TtlOpts call_opts

definition opts_js :: "call_opts \<Rightarrow> jsval" where
  "opts_js o' =
     Obj ((if raw o' then [(''raw'', Bool True)] else [])
          @ (case call_concurrency o' of None \<Rightarrow> [] | Some c \<Rightarrow> [(''concurrency'', Num c)]))"

fun ttl_js :: "ttl_arg \<Rightarrow> jsval" where
  "ttl_js TtlUndefined = Undefined"
| "ttl_js TtlNull = Null"
| "ttl_js (TtlNum n) = Num n"
| "ttl_js (TtlOpts o') = opts_js o'"

text \<open>
  The two call shapes of \<^verbatim>\<open>mset(keys, values, ttl, opts = {})\<close>: parallel arrays, or
  one mapping followed by \<^verbatim>\<open>ttl\<close> and \<^verbatim>\<open>opts\<close>. A mapping is the list of its
  properties in the order of \<^verbatim>\<open>Object.keys\<close>.
\<close>

datatype mset_call =
    Arrays "string list" "jsval list" ttl_arg "call_opts option"
  | Mapping "(string \<times> jsval) list" ttl_arg "call_opts option"

definition empty_opts :: call_opts where
  "empty_opts = \<lparr>raw = False, call_concurrency = None\<rparr>"

text \<open>
  The parameters after \<^verbatim>\<open>if (!Array.isArray(keys)) [keys, values, ttl, opts] = [Object.keys(keys), Object.values(keys), values, ttl]\<close>.
  The default \<^verbatim>\<open>opts = {}\<close> fills the fourth parameter of the array shape; in the
  mapping shape \<^verbatim>\<open>opts\<close> is the caller's third argument as it is.
\<close>

fun mset_params :: "mset_call \<Rightarrow> string list \<times> jsval list \<times> ttl_arg \<times> call_opts option" where
  "mset_params (Arrays ks vs t opts) =
     (ks, vs, t, Some (case opts of None \<Rightarrow> empty_opts | Some o' \<Rightarrow> o'))"
| "mset_params (Mapping m t opts) = (map fst m, map snd m, t, opts)"

text \<open>
  \<^verbatim>\<open>if (!opts && typeof ttl === 'object') [ttl, opts] = [null, ttl]\<close>. A \<^verbatim>\<open>null\<close>
  that lands in \<^verbatim>\<open>opts\<close> is as falsy as \<^verbatim>\<open>undefined\<close> and is \<open>None\<close> too.
\<close>

fun swap_ttl_opts :: "ttl_arg \<Rightarrow> call_opts option \<Rightarrow> ttl_arg \<times> call_opts option" where
  "swap_ttl_opts TtlNull None = (TtlNull, None)"
| "swap_ttl_opts (TtlOpts o') None = (TtlNull, Some o')"
| "swap_ttl_opts t opts = (t, opts)"

text \<open>
  \<^verbatim>\<open>values.map(v => this._setPreprocess(v, ttl))\<close>: the first value whose
  serialization throws aborts the map.
\<close>

fun collect :: "(error + 'a) list \<Rightarrow> error + 'a list" where
  "collect [] = Inr []"
| "collect (Inl e # xs) = Inl e"
| "collect (Inr x # xs) = (case collect xs of Inl e \<Rightarrow> Inl e | Inr ys \<Rightarrow> Inr (x # ys))"

text \<open>The parameters of \<^verbatim>\<open>mset\<close> after both adjustments.\<close>

definition mset_args :: "mset_call \<Rightarrow> string list \<times> jsval list \<times> ttl_arg \<times> call_opts option" where
  "mset_args call =
     (case mset_params call of (keys, vals, t0, opts0) \<Rightarrow>
      case swap_ttl_opts t0 opts0 of (t, opts) \<Rightarrow> (keys, vals, t, opts))"

text \<open>
  \<^verbatim>\<open>Promise.all(values.map(v => this._setPreprocess(v, ttl)))\<close>: the encoded
  values.
\<close>

definition mset_encode :: "'w keyv \<Rightarrow> mset_call \<Rightarrow> 'w \<Rightarrow> error + jsval list" where
  "mset_encode k call w =
     (case mset_args call of (keys, vals, t, opts) \<Rightarrow>
        collect (map (\<lambda>v. setPreprocess k v (ttl_js t) w) vals))"

text \<open>
  \<^verbatim>\<open>mset(keys, values, ttl, opts)\<close>: the adapter's \<^verbatim>\<open>mset\<close> when it has one, else
  the mapper over \<^verbatim>\<open>zip(keysPrefixed, values)\<close> with \<^verbatim>\<open>store.set(key, value, ttl)\<close>;
  the result is \<^verbatim>\<open>true\<close>.
\<close>

definition mset_keyv :: "'w keyv \<Rightarrow> mset_call \<Rightarrow> nat list \<Rightarrow> ('w, jsval) promise" where
  "mset_keyv k call sched w =
     (case mset_args call of (keys, vals, t, opts) \<Rightarrow>
        (let keysPrefixed = map (getKeyPrefix k) keys;
             conc = resolve_concurrency opts (concurrency k)
         in case mset_encode k call w of
              Inl e \<Rightarrow> (Inl e, w)
            | Inr encs \<Rightarrow>
                (case store_mset (store k) of
                   Some native \<Rightarrow>
                     (case native keysPrefixed encs (ttl_js t) conc w of
                        (Inl e, w') \<Rightarrow> (Inl e, w')
                      | (Inr r, w') \<Rightarrow> (Inr (Bool True), w'))
                 | None \<Rightarrow>
                     (case concurrentMap (map Inr (zip_js keysPrefixed encs))
                             (\<lambda>(key, v) idx. store_set (store k) key v (ttl_js t)) conc sched w of
                        (Inl e, w') \<Rightarrow> (Inl e, w')
                      | (Inr r, w') \<Rightarrow> (Inr (Bool True), w')))))"

section \<open>Invariant of the worker pool\<close>

text \<open>The indices that are recorded, in flight, or still in the shared iterator.\<close>

definition idxs :: "('a, 'r, 'w) pool \<Rightarrow> nat multiset" where
  "idxs st =
     mset (map fst (results st)) + mset (map fst (inflight st)) + mset (map fst (cursor st))"

text \<open>
  Every pending pair is an input at its own index; every recorded result is a result of
  \<open>func\<close> on the input at its index; no index occurs twice; and as long as nothing
  has been rejected no index is lost, and the iterator is empty once no call is in flight.
\<close>

definition pool_inv ::
  "(error + 'a) list \<Rightarrow> ('a \<Rightarrow> nat \<Rightarrow> ('w, 'r) promise) \<Rightarrow> ('a, 'r, 'w) pool \<Rightarrow> bool" where
  "pool_inv items func st \<longleftrightarrow>
     (\<forall>p \<in> set (inflight st) \<union> set (cursor st). fst p < length items \<and> snd p = items ! fst p)
   \<and> (\<forall>p \<in> set (results st). fst p < length items
         \<and> (\<exists>x u u'. items ! fst p = Inr x \<and> func x (fst p) u = (Inr (snd p), u')))
   \<and> idxs st \<subseteq># mset [0..<length items]
   \<and> (failure st = None \<longrightarrow>
         idxs st = mset [0..<length items] \<and> (inflight st = [] \<longrightarrow> cursor st = []))"

section \<open>Vocabulary for reads on an in-memory world\<close>

text \<open>What \<^verbatim>\<open>Map.get\<close> yields for a key: the stored form, or \<^verbatim>\<open>undefined\<close>.\<close>

definition lookup :: "mem_world \<Rightarrow> string \<Rightarrow> jsval" where
  "lookup w key = (case entries w key of Some v \<Rightarrow> v | None \<Rightarrow> Undefined)"

text \<open>
  Whether \<^verbatim>\<open>_getPostprocess\<close> reaches \<^verbatim>\<open>this.delete(key)\<close> on a stored form at a
  given time: the form decodes, is not \<^verbatim>\<open>undefined\<close>, and its \<^verbatim>\<open>expires\<close> is a
  number below that time.
\<close>

definition will_delete :: "'w keyv \<Rightarrow> jsval \<Rightarrow> int \<Rightarrow> bool" where
  "will_delete k d now =
     (case decode k d of
        Inl e \<Rightarrow> False
      | Inr e \<Rightarrow> e \<noteq> Undefined
          \<and> (case get_prop e ''expires'' of Inl err \<Rightarrow> False | Inr ex \<Rightarrow> expired ex now))"

section \<open>Concrete instances\<close>

text \<open>A codec on two entries; the deserializer inverts the serializer on them.\<close>

definition demo_serialize :: "jsval \<Rightarrow> error + jsval" where
  "demo_serialize v =
     (if v = entry (Num 3) Null then Inr (Str ''3/never'')
      else if v = entry (Num 3) (Num 105) then Inr (Str ''3/105'')
      else Inl (CodecError ''unsupported value''))"

definition demo_deserialize :: "string \<Rightarrow> error + jsval" where
  "demo_deserialize s =
     (if s = ''3/never'' then Inr (entry (Num 3) Null)
      else if s = ''3/105'' then Inr (entry (Num 3) (Num 105))
      else Inl (CodecError ''malformed''))"

text \<open>A facade on the in-memory store, with a namespace and a default ttl.\<close>

definition demo_keyv :: "string \<Rightarrow> jsval \<Rightarrow> mem_world keyv" where
  "demo_keyv ns dflt =
     \<lparr>namespace = ns, ttl = dflt, serialize = demo_serialize, deserialize = demo_deserialize,
      store = Map_store, concurrency = None, date_now = time\<rparr>"

definition demo_world :: "(string \<times> jsval) list \<Rightarrow> int \<Rightarrow> mem_world" where
  "demo_world kvs t = \<lparr>entries = map_of kvs, time = t\<rparr>"

text \<open>An adapter whose \<^verbatim>\<open>get\<close> resolves to \<^verbatim>\<open>null\<close> for an absent key.\<close>

definition null_get :: "string \<Rightarrow> jsval \<Rightarrow> (mem_world, jsval) promise" where
  "null_get key extra w = (Inr (case entries w key of Some v \<Rightarrow> v | None \<Rightarrow> Null), w)"

definition null_keyv :: "mem_world keyv" where
  "null_keyv = (demo_keyv ''keyv'' Undefined)\<lparr>store := Map_store\<lparr>store_get := null_get\<rparr>\<rparr>"

text \<open>
  The in-memory store with a batch read of its own, \<^verbatim>\<open>mget(keys, { concurrency })\<close>:
  the stored forms of the keys in order, \<^verbatim>\<open>undefined\<close> for an absent key.
\<close>

definition map_mget :: "string list \<Rightarrow> int option \<Rightarrow> (mem_world, jsval list) promise" where
  "map_mget keys conc w =
     (Inr (map (\<lambda>key. case entries w key of Some v \<Rightarrow> v | None \<Rightarrow> Undefined) keys), w)"

definition batch_keyv :: "mem_world keyv" where
  "batch_keyv = (demo_keyv ''keyv'' Undefined)\<lparr>store := Map_store\<lparr>store_mget := Some map_mget\<rparr>\<rparr>"

text \<open>An adapter that records the arguments of every \<^verbatim>\<open>set\<close>; its clock stands at 100.\<close>

type_synonym set_log = "(string \<times> jsval \<times> jsval) list"

definition log_store :: "set_log adapter" where
  "log_store =
     \<lparr>store_get = (\<lambda>key extra w. (Inr Undefined, w)),
      store_set = (\<lambda>key v t w. (Inr Undefined, w @ [(key, v, t)])),
      store_delete = (\<lambda>key w. (Inr (Bool False), w)),
      store_clear = (\<lambda>w. (Inr Undefined, w)),
      store_mget = None, store_mset = None\<rparr>"

definition log_keyv :: "jsval \<Rightarrow> set_log keyv" where
  "log_keyv dflt =
     \<lparr>namespace = ''keyv'', ttl = dflt, serialize = demo_serialize,
      deserialize = demo_deserialize, store = log_store, concurrency = None,
      date_now = (\<lambda>w. 100)\<rparr>"

text \<open>
  A transform that records the order of its calls in the world and rejects a negative
  input.
\<close>

definition demo_transform :: "int \<Rightarrow> nat \<Rightarrow> (int list, int) promise" where
  "demo_transform x idx w =
     (if x < 0 then Inl (AdapterError ''negative'') else Inr (x * 10 + int idx), w @ [x])"


section \<open>Lazy expiration on read\<close>

text \<open>
  Claim C1. When the adapter's \<^verbatim>\<open>get\<close> resolves to a stored form that decodes to
  an entry whose \<^verbatim>\<open>expires\<close> is a number below the current time, \<^verbatim>\<open>get\<close> issues
  the adapter's \<^verbatim>\<open>delete\<close> of the physical key in the world the read left, awaits it,
  and resolves to \<^verbatim>\<open>undefined\<close> when the delete resolves (a rejected delete is the
  rejection of \<^verbatim>\<open>get\<close>).
\<close>

theorem expired_read_deletes:
  assumes "store_get (store k) (getKeyPrefix k key) Undefined w = (Inr data, w1)"
    and "decode k data = Inr e"
    and "get_prop e ''expires'' = Inr (Num t)"
    and "date_now k w1 > t"
  shows "get k key opts w =
     (case store_delete (store k) (getKeyPrefix k key) w1 of
        (Inl err, w2) \<Rightarrow> (Inl err, w2)
      | (Inr b, w2) \<Rightarrow> (Inr Undefined, w2))"
proof -
  from assms(3) have "e \<noteq> Undefined" by auto
  with assms show ?thesis
    by (simp add: get_def getPostprocess_def expiration_def expired_def delete_def)
qed

theorem expired_read_deletes_witness:
  "fst (get (demo_keyv ''keyv'' Undefined) ''k'' None
          (demo_world [(''keyv:k'', Str ''3/105'')] 115)) = Inr Undefined
   \<and> entries (snd (get (demo_keyv ''keyv'' Undefined) ''k'' None
          (demo_world [(''keyv:k'', Str ''3/105'')] 115))) ''keyv:k'' = None"
proof -
  let ?k = "demo_keyv ''keyv'' Undefined"
  let ?w = "demo_world [(''keyv:k'', Str ''3/105'')] 115"
  have 1: "store_get (store ?k) (getKeyPrefix ?k ''k'') Undefined ?w = (Inr (Str ''3/105''), ?w)"
    by (simp add: demo_keyv_def demo_world_def Map_store_def map_get_def getKeyPrefix_def)
  have 2: "decode ?k (Str ''3/105'') = Inr (entry (Num 3) (Num 105))"
    by (simp add: decode_def demo_keyv_def demo_deserialize_def)
  have 3: "get_prop (entry (Num 3) (Num 105)) ''expires'' = Inr (Num 105)"
    by (simp add: entry_def)
  have 4: "date_now ?k ?w > 105"
    by (simp add: demo_keyv_def demo_world_def)
  have 5: "store_delete (store ?k) (getKeyPrefix ?k ''k'') ?w
      = (Inr (Bool True), ?w\<lparr>entries := (entries ?w)(''keyv:k'' := None)\<rparr>)"
    by (simp add: demo_keyv_def demo_world_def Map_store_def map_delete_def getKeyPrefix_def)
  show ?thesis
    using expired_read_deletes [OF 1 2 3 4, of None] by (simp add: 5)
qed

section \<open>Write then read\<close>

text \<open>
  Claim C2. On the default in-memory store, with a codec that takes the entry of
  \<open>v\<close> to a stored form that decodes back to it, \<^verbatim>\<open>set(key, v, ttl)\<close> followed by
  \<^verbatim>\<open>get(key)\<close> at a time at which the entry has not expired resolves to \<open>v\<close>.
\<close>

theorem set_get_roundtrip:
  assumes "store k = Map_store" and "date_now k = time"
    and "serialize k (entry v (expires_for k t w)) = Inr stored"
    and "decode k stored = Inr (entry v (expires_for k t w))"
    and "\<not> expired (expires_for k t w) now"
  shows "fst (get k key None ((snd (set_keyv k key v t w))\<lparr>time := now\<rparr>)) = Inr v"
  using assms
  by (simp add: get_def set_keyv_def setPreprocess_def Map_store_def map_get_def map_set_def
      getPostprocess_def expiration_def entry_def wants_raw_def)

theorem set_get_roundtrip_witness:
  "fst (get (demo_keyv ''keyv'' Undefined) ''k'' None
         ((snd (set_keyv (demo_keyv ''keyv'' Undefined) ''k'' (Num 3) (Num 5)
                  (demo_world [] 100)))\<lparr>time := 103\<rparr>)) = Inr (Num 3)"
proof -
  let ?k = "demo_keyv ''keyv'' Undefined"
  let ?w = "demo_world [] 100"
  have ex: "expires_for ?k (Num 5) ?w = Num 105"
    by (simp add: expires_for_def demo_keyv_def demo_world_def)
  have 1: "store ?k = Map_store" and 2: "date_now ?k = time"
    by (simp_all add: demo_keyv_def)
  have 3: "serialize ?k (entry (Num 3) (expires_for ?k (Num 5) ?w)) = Inr (Str ''3/105'')"
    unfolding ex by (simp add: demo_keyv_def demo_serialize_def entry_def)
  have 4: "decode ?k (Str ''3/105'') = Inr (entry (Num 3) (expires_for ?k (Num 5) ?w))"
    unfolding ex by (simp add: decode_def demo_keyv_def demo_deserialize_def)
  have 5: "\<not> expired (expires_for ?k (Num 5) ?w) 103"
    unfolding ex by (simp add: expired_def)
  show ?thesis
    by (rule set_get_roundtrip [OF 1 2 3 4 5])
qed

section \<open>Resolution of the ttl\<close>

text \<open>
  Claim C3. In \<^verbatim>\<open>_setPreprocess(value, ttl)\<close> an \<^verbatim>\<open>undefined\<close> ttl is replaced by
  the configured default; a ttl of \<^verbatim>\<open>0\<close> gives \<^verbatim>\<open>expires = null\<close> whatever the
  default; a ttl that resolves to a number other than \<^verbatim>\<open>0\<close> gives
  \<^verbatim>\<open>expires = Date.now() + ttl\<close>; one that resolves to no number gives
  \<^verbatim>\<open>expires = null\<close>.
\<close>

theorem ttl_resolution:
  "setPreprocess k v Undefined w = setPreprocess k v (ttl k) w
   \<and> setPreprocess k v (Num 0) w = serialize k (entry v Null)
   \<and> (\<forall>n. (if t = Undefined then ttl k else t) = Num n \<and> n \<noteq> 0 \<longrightarrow>
         setPreprocess k v t w = serialize k (entry v (Num (date_now k w + n))))
   \<and> ((\<forall>n. (if t = Undefined then ttl k else t) \<noteq> Num n) \<longrightarrow>
         setPreprocess k v t w = serialize k (entry v Null))"
  by (auto simp: setPreprocess_def expires_for_def Let_def split: jsval.split)

theorem ttl_resolution_witness:
  "setPreprocess (demo_keyv ''keyv'' Undefined) (Num 3) (Num 5) (demo_world [] 100)
     = Inr (Str ''3/105'')
   \<and> setPreprocess (demo_keyv ''keyv'' (Num 5)) (Num 3) (Num 0) (demo_world [] 100)
     = Inr (Str ''3/never'')
   \<and> setPreprocess (demo_keyv ''keyv'' Undefined) (Num 3) Null (demo_world [] 100)
     = Inr (Str ''3/never'')"
  using ttl_resolution [of "demo_keyv ''keyv'' Undefined" "Num 3" "demo_world [] 100" "Num 5"]
    ttl_resolution [of "demo_keyv ''keyv'' (Num 5)" "Num 3" "demo_world [] 100" "Num 0"]
    ttl_resolution [of "demo_keyv ''keyv'' Undefined" "Num 3" "demo_world [] 100" Null]
  by (simp add: demo_keyv_def demo_world_def demo_serialize_def entry_def)

section \<open>Order of the mapper's results\<close>

lemma pick_less: "0 < n \<Longrightarrow> pick sched n < n"
  by (simp add: pick_def split: list.split)

lemma mset_nth_remove:
  assumes "j < length xs"
  shows "mset xs = add_mset (xs ! j) (mset (remove_nth j xs))"
proof -
  have "mset xs = mset (take j xs @ xs ! j # drop (Suc j) xs)"
    by (rule arg_cong [OF id_take_nth_drop [OF assms]])
  also have "\<dots> = add_mset (xs ! j) (mset (remove_nth j xs))"
    by (simp add: remove_nth_def)
  finally show ?thesis .
qed

lemma mset_update_remove:
  assumes "j < length xs"
  shows "mset (xs[j := c]) = add_mset c (mset (remove_nth j xs))"
proof -
  have "mset (xs[j := c]) = add_mset c (mset xs - {#xs ! j#})"
    using assms by (rule mset_update)
  also have "mset xs - {#xs ! j#} = mset (remove_nth j xs)"
    by (subst mset_nth_remove [OF assms]) simp
  finally show ?thesis .
qed

lemma set_remove_nth: "set (remove_nth j xs) \<subseteq> set xs"
  by (auto simp: remove_nth_def dest: in_set_takeD in_set_dropD)

lemma first_failure_neq_None: "first_failure f e \<noteq> None"
  by (simp add: first_failure_def split: option.split)

lemma run_workers_stop: "inflight st = [] \<Longrightarrow> run_workers func st = st"
  by (subst run_workers.simps) simp

lemma run_workers_go:
  "inflight st \<noteq> [] \<Longrightarrow> run_workers func st = run_workers func (worker_step func st)"
  by (subst run_workers.simps) simp

lemma run_workers_rule:
  assumes init: "P st"
    and step: "\<And>s. P s \<Longrightarrow> inflight s \<noteq> [] \<Longrightarrow> P (worker_step func s)"
  shows "P (run_workers func st) \<and> inflight (run_workers func st) = []"
  using init step
proof (induction func st rule: run_workers.induct)
  case (1 func st)
  show ?case
  proof (cases "inflight st = []")
    case True
    with "1.prems"(1) show ?thesis
      by (simp add: run_workers_stop)
  next
    case False
    have "P (worker_step func st)"
      using "1.prems"(1) False by (rule "1.prems"(2))
    with False have "P (run_workers func (worker_step func st))
        \<and> inflight (run_workers func (worker_step func st)) = []"
      by (rule "1.IH") (rule "1.prems"(2))
    then show ?thesis
      by (simp only: run_workers_go [OF False])
  qed
qed

text \<open>What one step does, by cases.\<close>

lemma worker_step_cases:
  assumes ne: "inflight st \<noteq> []"
  obtains
    (reject) j i el where "j < length (inflight st)" "inflight st ! j = (i, el)"
      "(\<exists>e. el = Inl e) \<or> (\<exists>x e w'. el = Inr x \<and> func x i (world st) = (Inl e, w'))"
      "inflight (worker_step func st) = remove_nth j (inflight st)"
      "cursor (worker_step func st) = cursor st"
      "results (worker_step func st) = results st"
      "failure (worker_step func st) \<noteq> None"
  | (last) j i x r w' where "j < length (inflight st)" "inflight st ! j = (i, Inr x)"
      "func x i (world st) = (Inr r, w')" "cursor st = []"
      "inflight (worker_step func st) = remove_nth j (inflight st)"
      "cursor (worker_step func st) = []"
      "results (worker_step func st) = results st @ [(i, r)]"
      "failure (worker_step func st) = failure st"
      "world (worker_step func st) = w'"
  | (more) j i x r w' c cs where "j < length (inflight st)" "inflight st ! j = (i, Inr x)"
      "func x i (world st) = (Inr r, w')" "cursor st = c # cs"
      "inflight (worker_step func st) = (inflight st)[j := c]"
      "cursor (worker_step func st) = cs"
      "results (worker_step func st) = results st @ [(i, r)]"
      "failure (worker_step func st) = failure st"
      "world (worker_step func st) = w'"
proof -
  define j where "j = pick (schedule st) (length (inflight st))"
  have j: "j < length (inflight st)"
    using ne by (simp add: j_def pick_less)
  obtain i el where p: "inflight st ! j = (i, el)"
    by (cases "inflight st ! j")
  show thesis
  proof (cases el)
    case (Inl e)
    with j p show thesis
      by (intro reject [of j i el]) (simp_all add: worker_step_def Let_def j_def first_failure_neq_None)
  next
    case (Inr x)
    obtain res w' where f: "func x i (world st) = (res, w')"
      by (cases "func x i (world st)")
    show thesis
    proof (cases res)
      case (Inl e)
      with j p Inr f show thesis
        by (intro reject [of j i el]) (simp_all add: worker_step_def Let_def j_def first_failure_neq_None)
    next
      case r: (Inr r)
      show thesis
      proof (cases "cursor st")
        case Nil
        with j p Inr f r show thesis
          by (intro last [of j i x r w']) (simp_all add: worker_step_def Let_def j_def)
      next
        case (Cons c cs)
        with j p Inr f r show thesis
          by (intro more [of j i x r w' c cs]) (simp_all add: worker_step_def Let_def j_def)
      qed
    qed
  qed
qed


lemma pool_inv_step:
  assumes inv: "pool_inv items func st" and ne: "inflight st \<noteq> []"
  shows "pool_inv items func (worker_step func st)"
  using ne
proof (cases rule: worker_step_cases [where func = func])
  case (reject j i el)
  let ?st' = "worker_step func st"
  have sub: "idxs ?st' \<subseteq># idxs st"
    by (simp add: idxs_def reject(4,5,6) mset_nth_remove [OF reject(1)])
  have "idxs ?st' \<subseteq># mset [0..<length items]"
    using sub inv unfolding pool_inv_def by (meson subset_mset.order_trans)
  moreover have "\<forall>p \<in> set (inflight ?st') \<union> set (cursor ?st'). fst p < length items \<and> snd p = items ! fst p"
    using inv set_remove_nth [of j "inflight st"] unfolding pool_inv_def reject by blast
  moreover have "\<forall>p \<in> set (results ?st'). fst p < length items
         \<and> (\<exists>x u u'. items ! fst p = Inr x \<and> func x (fst p) u = (Inr (snd p), u'))"
    using inv unfolding pool_inv_def reject by blast
  ultimately show ?thesis
    using reject(7) unfolding pool_inv_def by blast
next
  case (last j i x r w')
  let ?st' = "worker_step func st"
  have mem: "(i, Inr x) \<in> set (inflight st)"
    using last(1,2) by (metis nth_mem)
  have eq: "idxs ?st' = idxs st"
    by (simp add: idxs_def last(2,4,5,6,7) mset_nth_remove [OF last(1)])
  have a: "\<forall>p \<in> set (inflight ?st') \<union> set (cursor ?st'). fst p < length items \<and> snd p = items ! fst p"
    using inv set_remove_nth [of j "inflight st"] unfolding pool_inv_def last by auto
  have "i < length items \<and> items ! i = Inr x"
    using inv mem unfolding pool_inv_def by force
  then have b: "\<forall>p \<in> set (results ?st'). fst p < length items
         \<and> (\<exists>x u u'. items ! fst p = Inr x \<and> func x (fst p) u = (Inr (snd p), u'))"
    using inv last(3) unfolding pool_inv_def last(7) by auto
  have c: "idxs ?st' \<subseteq># mset [0..<length items]"
    using inv unfolding pool_inv_def eq by blast
  have d: "failure ?st' = None \<longrightarrow>
         idxs ?st' = mset [0..<length items] \<and> (inflight ?st' = [] \<longrightarrow> cursor ?st' = [])"
    using inv unfolding pool_inv_def eq last(8) last(6) by blast
  show ?thesis
    unfolding pool_inv_def using a b c d by blast
next
  case (more j i x r w' c cs)
  let ?st' = "worker_step func st"
  have mem: "(i, Inr x) \<in> set (inflight st)"
    using more(1,2) by (metis nth_mem)
  have eq: "idxs ?st' = idxs st"
    by (simp add: idxs_def more(2,4,5,6,7) mset_nth_remove [OF more(1)] mset_update_remove [OF more(1)])
  have "set (inflight ?st') \<subseteq> insert c (set (inflight st))"
    unfolding more by (rule set_update_subset_insert)
  then have a: "\<forall>p \<in> set (inflight ?st') \<union> set (cursor ?st'). fst p < length items \<and> snd p = items ! fst p"
    using inv unfolding pool_inv_def more(4) more(6) by auto
  have "i < length items \<and> items ! i = Inr x"
    using inv mem unfolding pool_inv_def by force
  then have b: "\<forall>p \<in> set (results ?st'). fst p < length items
         \<and> (\<exists>x u u'. items ! fst p = Inr x \<and> func x (fst p) u = (Inr (snd p), u'))"
    using inv more(3) unfolding pool_inv_def more(7) by auto
  have c: "idxs ?st' \<subseteq># mset [0..<length items]"
    using inv unfolding pool_inv_def eq by blast
  have "inflight ?st' \<noteq> []"
    using ne unfolding more(5) by simp
  then have d: "failure ?st' = None \<longrightarrow>
         idxs ?st' = mset [0..<length items] \<and> (inflight ?st' = [] \<longrightarrow> cursor ?st' = [])"
    using inv ne unfolding pool_inv_def eq more(8) by blast
  show ?thesis
    unfolding pool_inv_def using a b c d by blast
qed

lemma pool_inv_start:
  assumes "k = 0 \<longrightarrow> items = []"
  shows "pool_inv items func (start_pool sched k items w)"
proof -
  let ?all = "enumerate 0 items"
  have s: "set (take k ?all) \<union> set (drop k ?all) = set ?all"
    by (metis append_take_drop_id set_append)
  have a: "\<forall>p \<in> set (take k ?all) \<union> set (drop k ?all). fst p < length items \<and> snd p = items ! fst p"
    unfolding s by (simp add: in_set_enumerate_eq)
  have "mset (take k ?all) + mset (drop k ?all) = mset ?all"
    by (metis append_take_drop_id mset_append)
  then have "image_mset fst (mset (take k ?all)) + image_mset fst (mset (drop k ?all))
      = image_mset fst (mset ?all)"
    by (metis image_mset_union)
  also have "\<dots> = mset [0..<length items]"
    by (simp flip: mset_map)
  finally have c: "image_mset fst (mset (take k ?all)) + image_mset fst (mset (drop k ?all))
      = mset [0..<length items]" .
  have en: "?all = [] \<longleftrightarrow> items = []"
    by (metis length_enumerate length_0_conv)
  have e: "take k ?all = [] \<longrightarrow> drop k ?all = []"
    using assms by (auto simp: take_eq_Nil en)
  show ?thesis
    unfolding pool_inv_def using a c e by (simp add: idxs_def start_pool_def)
qed

lemma pool_inv_final:
  assumes "pool_inv items func st" and "inflight st = []" and "failure st = None"
  shows "mset (map fst (results st)) = mset [0..<length items]"
  using assms unfolding pool_inv_def by (auto simp: idxs_def)

lemma pool_inv_result:
  assumes "pool_inv items func st" and "(i, r) \<in> set (results st)"
  shows "\<exists>x u u'. items ! i = Inr x \<and> func x i u = (Inr r, u')"
  using assms unfolding pool_inv_def by fastforce

lemma sorted_indices:
  assumes "mset (map fst rs) = mset [0..<n]"
  shows "map fst (sort_key fst rs) = [0..<n]"
proof -
  have "mset (map fst (sort_key fst rs)) = mset [0..<n]"
    using assms by simp
  moreover have "sorted (map fst (sort_key fst rs))"
    by (rule sorted_sort_key)
  ultimately have "sort [0..<n] = map fst (sort_key fst rs)"
    by (rule properties_for_sort)
  then show ?thesis
    by (simp add: sorted_sort_id)
qed

lemma sorted_readout:
  assumes m: "mset (map fst rs) = mset [0..<n]"
  shows "length (map snd (sort_key fst rs)) = n"
    and "i < n \<Longrightarrow> (i, map snd (sort_key fst rs) ! i) \<in> set rs"
proof -
  have len: "length rs = n"
    using m by (metis length_map length_upt size_mset minus_nat.diff_0)
  then show "length (map snd (sort_key fst rs)) = n"
    by simp
  assume i: "i < n"
  have "fst (sort_key fst rs ! i) = i"
    using sorted_indices [OF m] i len by (metis add_0 length_sort nth_map nth_upt)
  moreover have "sort_key fst rs ! i \<in> set rs"
    using i len by (metis length_sort nth_mem set_sort)
  ultimately show "(i, map snd (sort_key fst rs) ! i) \<in> set rs"
    using i len by (metis length_sort nth_map prod.collapse)
qed

lemma promise_all_readout:
  assumes m: "mset (map fst rs) = mset [0..<n]"
  shows "length (promise_all n rs) = n"
    and "i < n \<Longrightarrow> (i, promise_all n rs ! i) \<in> set rs"
proof -
  show "length (promise_all n rs) = n"
    by (simp add: promise_all_def)
  assume i: "i < n"
  have "set (map fst rs) = set [0..<n]"
    using m by (rule mset_eq_setD)
  with i have "i \<in> fst ` set rs"
    by simp
  then obtain v where "map_of rs i = Some v"
    by (metis domD dom_map_of_conv_image_fst)
  then show "(i, promise_all n rs ! i) \<in> set rs"
    using i by (simp add: promise_all_def map_of_SomeD)
qed

lemma no_failure_step:
  assumes total: "\<forall>i<length items. \<exists>x. items ! i = Inr x \<and> (\<forall>u. \<exists>r u'. func x i u = (Inr r, u'))"
    and inv: "pool_inv items func st" and ok: "failure st = None" and ne: "inflight st \<noteq> []"
  shows "failure (worker_step func st) = None"
  using ne
proof (cases rule: worker_step_cases [where func = func])
  case (reject j i el)
  have "(i, el) \<in> set (inflight st)"
    using reject(1,2) by (metis nth_mem)
  then have "i < length items \<and> el = items ! i"
    using inv unfolding pool_inv_def by force
  with total reject(3) show ?thesis
    by (metis Inl_Inr_False Pair_inject sum.inject(2))
next
  case (last j i x r w')
  with ok show ?thesis by simp
next
  case (more j i x r w' c cs)
  with ok show ?thesis by simp
qed

lemma run_workers_inv:
  assumes "pool_inv items func st"
  shows "pool_inv items func (run_workers func st) \<and> inflight (run_workers func st) = []"
  using assms by (rule run_workers_rule) (rule pool_inv_step)

lemma run_workers_no_failure:
  assumes total: "\<forall>i<length items. \<exists>x. items ! i = Inr x \<and> (\<forall>u. \<exists>r u'. func x i u = (Inr r, u'))"
    and inv: "pool_inv items func st" and ok: "failure st = None"
  shows "failure (run_workers func st) = None"
proof -
  have "(pool_inv items func (run_workers func st) \<and> failure (run_workers func st) = None)
      \<and> inflight (run_workers func st) = []"
  proof (rule run_workers_rule [where P = "\<lambda>s. pool_inv items func s \<and> failure s = None"])
    show "pool_inv items func st \<and> failure st = None"
      using inv ok by simp
  next
    fix s
    assume "pool_inv items func s \<and> failure s = None" and "inflight s \<noteq> []"
    then show "pool_inv items func (worker_step func s) \<and> failure (worker_step func s) = None"
      using total by (simp add: pool_inv_step no_failure_step)
  qed
  then show ?thesis by simp
qed

lemma run_start_inv:
  assumes "k = 0 \<longrightarrow> items = []"
  shows "pool_inv items func (run_workers func (start_pool sched k items w))"
    and "inflight (run_workers func (start_pool sched k items w)) = []"
proof -
  have "pool_inv items func (run_workers func (start_pool sched k items w))
      \<and> inflight (run_workers func (start_pool sched k items w)) = []"
    by (rule run_workers_inv [OF pool_inv_start [OF assms]])
  then show "pool_inv items func (run_workers func (start_pool sched k items w))"
    and "inflight (run_workers func (start_pool sched k items w)) = []"
    by simp_all
qed

lemma run_start_indices:
  assumes "k = 0 \<longrightarrow> items = []"
    and "failure (run_workers func (start_pool sched k items w)) = None"
  shows "mset (map fst (results (run_workers func (start_pool sched k items w))))
      = mset [0..<length items]"
  using run_start_inv [OF assms(1)] assms(2) by (rule pool_inv_final)

lemma run_start_total:
  assumes "k = 0 \<longrightarrow> items = []"
    and "\<forall>i<length items. \<exists>x. items ! i = Inr x \<and> (\<forall>u. \<exists>r u'. func x i u = (Inr r, u'))"
  shows "failure (run_workers func (start_pool sched k items w)) = None"
  using assms(2) pool_inv_start [OF assms(1)]
  by (rule run_workers_no_failure) (simp add: start_pool_def)

lemma bounded_map_sound:
  assumes k: "k = 0 \<longrightarrow> items = []"
    and res: "fst (bounded_map k items func sched w) = Inr out"
  shows "length out = length items"
    and "i < length items \<Longrightarrow> \<exists>x u u'. items ! i = Inr x \<and> func x i u = (Inr (out ! i), u')"
proof -
  let ?st = "run_workers func (start_pool sched k items w)"
  have "failure ?st = None \<and> out = map snd (sort_key fst (results ?st))"
  proof (cases "failure ?st")
    case None
    with res show ?thesis by (simp add: bounded_map_def Let_def)
  next
    case (Some e)
    with res show ?thesis by (simp add: bounded_map_def Let_def)
  qed
  then have ok: "failure ?st = None" and out: "out = map snd (sort_key fst (results ?st))"
    by blast+
  have m: "mset (map fst (results ?st)) = mset [0..<length items]"
    using k ok by (rule run_start_indices)
  show "length out = length items"
    unfolding out by (rule sorted_readout(1) [OF m])
  assume "i < length items"
  then have "(i, out ! i) \<in> set (results ?st)"
    unfolding out by (rule sorted_readout(2) [OF m])
  with run_start_inv(1) [OF k]
  show "\<exists>x u u'. items ! i = Inr x \<and> func x i u = (Inr (out ! i), u')"
    by (rule pool_inv_result)
qed

lemma unbounded_map_sound:
  assumes res: "fst (unbounded_map items func sched w) = Inr out"
  shows "length out = length items"
    and "i < length items \<Longrightarrow> \<exists>x u u'. items ! i = Inr x \<and> func x i u = (Inr (out ! i), u')"
proof -
  have k: "length items = 0 \<longrightarrow> items = []"
    by simp
  let ?st = "run_workers func (start_pool sched (length items) items w)"
  have "failure ?st = None \<and> out = promise_all (length items) (results ?st)"
  proof (cases "failure ?st")
    case None
    with res show ?thesis by (simp add: unbounded_map_def Let_def)
  next
    case (Some e)
    with res show ?thesis by (simp add: unbounded_map_def Let_def)
  qed
  then have ok: "failure ?st = None" and out: "out = promise_all (length items) (results ?st)"
    by blast+
  have m: "mset (map fst (results ?st)) = mset [0..<length items]"
    using k ok by (rule run_start_indices)
  show "length out = length items"
    unfolding out by (rule promise_all_readout(1) [OF m])
  assume "i < length items"
  then have "(i, out ! i) \<in> set (results ?st)"
    unfolding out by (rule promise_all_readout(2) [OF m])
  with run_start_inv(1) [OF k]
  show "\<exists>x u u'. items ! i = Inr x \<and> func x i u = (Inr (out ! i), u')"
    by (rule pool_inv_result)
qed

lemma bounded_map_resolves:
  assumes k: "k = 0 \<longrightarrow> items = []"
    and total: "\<forall>i<length items. \<exists>x. items ! i = Inr x \<and> (\<forall>u. \<exists>r u'. func x i u = (Inr r, u'))"
  shows "\<exists>out. fst (bounded_map k items func sched w) = Inr out"
  using run_start_total [OF k total] by (simp add: bounded_map_def Let_def)

lemma unbounded_map_resolves:
  assumes total: "\<forall>i<length items. \<exists>x. items ! i = Inr x \<and> (\<forall>u. \<exists>r u'. func x i u = (Inr r, u'))"
  shows "\<exists>out. fst (unbounded_map items func sched w) = Inr out"
proof -
  have k: "length items = 0 \<longrightarrow> items = []"
    by simp
  show ?thesis
    using run_start_total [OF k total] by (simp add: unbounded_map_def Let_def)
qed

lemma concurrentMap_modes:
  obtains (unb) "concurrentMap items func conc sched w = unbounded_map items func sched w"
  | (bnd) k where "k = 0 \<longrightarrow> items = []"
      "concurrentMap items func conc sched w = bounded_map k items func sched w"
proof (cases "\<exists>c. conc = Some c \<and> 0 < c")
  case True
  then obtain c where c: "conc = Some c" "0 < c" by blast
  then have "min (length items) (nat c) = 0 \<longrightarrow> items = []"
    by (auto simp: min_def split: if_splits)
  moreover have "concurrentMap items func conc sched w
      = bounded_map (min (length items) (nat c)) items func sched w"
    using c by (simp add: concurrentMap_def)
  ultimately show thesis by (rule bnd)
next
  case False
  have "concurrentMap items func conc sched w = unbounded_map items func sched w"
  proof (cases conc)
    case None
    then show ?thesis by (simp add: concurrentMap_def)
  next
    case (Some c)
    with False have "c = 0 \<or> c < 0" by auto
    with Some show ?thesis by (simp add: concurrentMap_def)
  qed
  then show thesis by (rule unb)
qed

lemma concurrentMap_sound:
  assumes "fst (concurrentMap items func conc sched w) = Inr out"
  shows "length out = length items"
    and "i < length items \<Longrightarrow> \<exists>x u u'. items ! i = Inr x \<and> func x i u = (Inr (out ! i), u')"
proof -
  have "length out = length items
     \<and> (i < length items \<longrightarrow> (\<exists>x u u'. items ! i = Inr x \<and> func x i u = (Inr (out ! i), u')))"
  proof (cases rule: concurrentMap_modes [of items func conc sched w])
    case unb
    with assms have r: "fst (unbounded_map items func sched w) = Inr out"
      by simp
    have "length out = length items"
      using r by (rule unbounded_map_sound(1))
    moreover have "\<exists>x u u'. items ! i = Inr x \<and> func x i u = (Inr (out ! i), u')"
      if "i < length items"
      using r that by (rule unbounded_map_sound(2))
    ultimately show ?thesis by simp
  next
    case (bnd k)
    with assms have r: "fst (bounded_map k items func sched w) = Inr out"
      by simp
    have "length out = length items"
      using bnd(1) r by (rule bounded_map_sound(1))
    moreover have "\<exists>x u u'. items ! i = Inr x \<and> func x i u = (Inr (out ! i), u')"
      if "i < length items"
      using bnd(1) r that by (rule bounded_map_sound(2))
    ultimately show ?thesis by simp
  qed
  then show "length out = length items"
    and "i < length items \<Longrightarrow> \<exists>x u u'. items ! i = Inr x \<and> func x i u = (Inr (out ! i), u')"
    by simp_all
qed

lemma concurrentMap_resolves:
  assumes total: "\<forall>i<length items. \<exists>x. items ! i = Inr x \<and> (\<forall>u. \<exists>r u'. func x i u = (Inr r, u'))"
  shows "\<exists>out. fst (concurrentMap items func conc sched w) = Inr out"
proof (cases rule: concurrentMap_modes [of items func conc sched w])
  case unb
  with unbounded_map_resolves [OF total] show ?thesis by simp
next
  case (bnd k)
  with bounded_map_resolves [OF bnd(1) total] show ?thesis by simp
qed


text \<open>
  Claim C4. Whatever the schedule and in both modes, a sequence that
  \<^verbatim>\<open>concurrentMap\<close> resolves to has the length of the input and holds at every index
  \<open>i\<close> a result of \<open>func\<close> on the i-th input and \<open>i\<close>; it does resolve when every
  input resolves and \<open>func\<close> never rejects; and for a transform without effects it is
  exactly the sequence of the results in input order.
\<close>

theorem concurrentMap_keeps_input_order:
  "(\<forall>out. fst (concurrentMap items func conc sched w) = Inr out \<longrightarrow>
      length out = length items
      \<and> (\<forall>i<length items. \<exists>x u u'. items ! i = Inr x \<and> func x i u = (Inr (out ! i), u')))
   \<and> ((\<forall>i<length items. \<exists>x. items ! i = Inr x \<and> (\<forall>u. \<exists>r u'. func x i u = (Inr r, u')))
        \<longrightarrow> (\<exists>out. fst (concurrentMap items func conc sched w) = Inr out))
   \<and> ((\<forall>x i u. func x i u = (Inr (f x i), u)) \<longrightarrow>
        fst (concurrentMap (map Inr xs) func conc sched w)
          = Inr (map (\<lambda>i. f (xs ! i) i) [0..<length xs]))"
proof (intro conjI allI impI)
  fix out
  assume "fst (concurrentMap items func conc sched w) = Inr out"
  then show "length out = length items"
    by (rule concurrentMap_sound(1))
next
  fix out i
  assume "fst (concurrentMap items func conc sched w) = Inr out" and "i < length items"
  then show "\<exists>x u u'. items ! i = Inr x \<and> func x i u = (Inr (out ! i), u')"
    by (rule concurrentMap_sound(2))
next
  assume "\<forall>i<length items. \<exists>x. items ! i = Inr x \<and> (\<forall>u. \<exists>r u'. func x i u = (Inr r, u'))"
  then show "\<exists>out. fst (concurrentMap items func conc sched w) = Inr out"
    by (rule concurrentMap_resolves)
next
  assume pure: "\<forall>x i u. func x i u = (Inr (f x i), u)"
  then have "\<forall>i<length (map Inr xs). \<exists>x. map Inr xs ! i = Inr x \<and> (\<forall>u. \<exists>r u'. func x i u = (Inr r, u'))"
    by simp
  then have "\<exists>out. fst (concurrentMap (map Inr xs) func conc sched w) = Inr out"
    by (rule concurrentMap_resolves)
  then obtain out where out: "fst (concurrentMap (map Inr xs) func conc sched w) = Inr out" ..
  have len: "length out = length xs"
    using concurrentMap_sound(1) [OF out] by simp
  have "out ! i = f (xs ! i) i" if "i < length xs" for i
  proof -
    from that have "i < length (map Inr xs)" by simp
    from concurrentMap_sound(2) [OF out this] that pure show ?thesis
      by auto
  qed
  then have "out = map (\<lambda>i. f (xs ! i) i) [0..<length xs]"
    using len by (intro nth_equalityI) simp_all
  with out show "fst (concurrentMap (map Inr xs) func conc sched w)
      = Inr (map (\<lambda>i. f (xs ! i) i) [0..<length xs])"
    by simp
qed

theorem concurrentMap_keeps_input_order_witness:
  "fst (concurrentMap (map Inr [5, 6, 7, 8, 9]) demo_transform (Some 2) [1, 1, 0, 1] [])
     = Inr [50, 61, 72, 83, 94]
   \<and> (\<exists>u u'. demo_transform 7 2 u = (Inr 72, u'))
   \<and> (\<exists>out. fst (concurrentMap (map Inr [5, 6, 7, 8, 9]) demo_transform None [3, 1, 0, 1] [])
         = Inr out)
   \<and> fst (concurrentMap (map Inr [5, 6, 7, 8, 9]) (\<lambda>x i u. (Inr (x * 10 + int i), u))
           (Some 2) [1, 1, 0, 1] ())
     = Inr [50, 61, 72, 83, 94]"
proof -
  let ?items = "map Inr [5, 6, 7, 8, 9 :: int] :: (error + int) list"
  have run: "fst (concurrentMap ?items demo_transform (Some 2) [1, 1, 0, 1] [])
      = Inr [50, 61, 72, 83, 94]"
    by code_simp
  have total: "\<forall>i<length ?items. \<exists>x. ?items ! i = Inr x
      \<and> (\<forall>u. \<exists>r u'. demo_transform x i u = (Inr r, u'))"
    by (simp add: demo_transform_def less_Suc_eq nth_Cons' numeral_eq_Suc)
  have pure: "\<forall>x i u. (\<lambda>x i (u :: unit). (Inr (x * 10 + int i) :: error + int, u)) x i u
      = (Inr ((\<lambda>x i. x * 10 + int i) x i), u)"
    by simp
  have vals: "map (\<lambda>i. [5, 6, 7, 8, 9 :: int] ! i * 10 + int i) [0..<length [5, 6, 7, 8, 9 :: int]]
      = [50, 61, 72, 83, 94]"
    by code_simp
  note a = concurrentMap_keeps_input_order
      [of ?items demo_transform "Some 2" "[1, 1, 0, 1]" "[]" "\<lambda>x i. x" "[]",
        THEN conjunct1, THEN spec, THEN mp, OF run]
  note b = concurrentMap_keeps_input_order
      [of ?items demo_transform None "[3, 1, 0, 1]" "[]" "\<lambda>x i. x" "[]",
        THEN conjunct2, THEN conjunct1, THEN mp, OF total]
  note c = concurrentMap_keeps_input_order
      [of "[]" "\<lambda>x i (u :: unit). (Inr (x * 10 + int i) :: error + int, u)" "Some 2"
          "[1, 1, 0, 1]" "()" "\<lambda>x i. x * 10 + int i" "[5, 6, 7, 8, 9]",
        THEN conjunct2, THEN conjunct2, THEN mp, OF pure]
  from c have c': "fst (concurrentMap ?items (\<lambda>x i u. (Inr (x * 10 + int i), u))
           (Some 2) [1, 1, 0, 1] ()) = Inr [50, 61, 72, 83, 94]"
    unfolding vals .
  have a': "\<exists>u u'. demo_transform 7 2 u = (Inr 72, u')"
  proof -
    have "(2 :: nat) < length ?items" by simp
    with a obtain x u u' where x: "?items ! 2 = Inr x"
      and r: "demo_transform x 2 u = (Inr ([50, 61, 72, 83, 94] ! 2), u')"
      by blast
    from x have "x = 7" by simp
    with r show ?thesis by auto
  qed
  from run a' b c' show ?thesis
    by (intro conjI)
qed

section \<open>Batch read\<close>

lemma Map_store_fields:
  "store_mget Map_store = None" "store_mset Map_store = None"
  "store_get Map_store = map_get" "store_set Map_store = map_set"
  by (simp_all add: Map_store_def)

lemma zip_js_length: "length (zip_js a b) = length a"
  by (simp add: zip_js_def)

lemma zip_js_nth:
  "i < length a \<Longrightarrow> zip_js a b ! i = (a ! i, if i < length b then b ! i else Undefined)"
  by (simp add: zip_js_def)

lemma mget_phases:
  assumes "fst (mget k keys opts sched w) = Inr out"
  obtains data w' where
    "(case store_mget (store k) of
        Some native \<Rightarrow> native (map (getKeyPrefix k) keys) (resolve_concurrency opts (concurrency k)) w
      | None \<Rightarrow>
          concurrentMap (map Inr (map (getKeyPrefix k) keys))
            (\<lambda>key idx. store_get (store k) key (Num (int idx)))
            (resolve_concurrency opts (concurrency k)) (fst sched) w) = (Inr data, w')"
    "fst (concurrentMap (map Inr (zip_js keys data))
            (\<lambda>(key, d) idx. getPostprocess k key d opts)
            (resolve_concurrency opts (concurrency k)) (snd sched) w') = Inr out"
proof -
  let ?first = "case store_mget (store k) of
        Some native \<Rightarrow> native (map (getKeyPrefix k) keys) (resolve_concurrency opts (concurrency k)) w
      | None \<Rightarrow>
          concurrentMap (map Inr (map (getKeyPrefix k) keys))
            (\<lambda>key idx. store_get (store k) key (Num (int idx)))
            (resolve_concurrency opts (concurrency k)) (fst sched) w"
  obtain res w' where f: "?first = (res, w')"
    by (cases ?first)
  show thesis
  proof (cases res)
    case (Inl e)
    with f assms show thesis
      by (simp add: mget_def Let_def)
  next
    case (Inr data)
    with f assms have "fst (concurrentMap (map Inr (zip_js keys data))
            (\<lambda>(key, d) idx. getPostprocess k key d opts)
            (resolve_concurrency opts (concurrency k)) (snd sched) w') = Inr out"
      by (simp add: mget_def Let_def)
    with f Inr show thesis
      by (intro that [of data w']) simp_all
  qed
qed


lemma mget_sound:
  assumes res: "fst (mget k keys opts sched w) = Inr out"
  shows "length out = length keys
    \<and> (\<forall>i<length keys. \<exists>d u u'.
          getPostprocess k (keys ! i) d opts u = (Inr (out ! i), u')
          \<and> (case store_mget (store k) of
               Some native \<Rightarrow>
                 (\<exists>data w'. native (map (getKeyPrefix k) keys)
                        (resolve_concurrency opts (concurrency k)) w = (Inr data, w')
                    \<and> d = (if i < length data then data ! i else Undefined))
             | None \<Rightarrow>
                 (\<exists>v v'. store_get (store k) (getKeyPrefix k (keys ! i)) (Num (int i)) v
                    = (Inr d, v'))))"
proof -
  let ?conc = "resolve_concurrency opts (concurrency k)"
  from res obtain data w' where
    first: "(case store_mget (store k) of
        Some native \<Rightarrow> native (map (getKeyPrefix k) keys) ?conc w
      | None \<Rightarrow>
          concurrentMap (map Inr (map (getKeyPrefix k) keys))
            (\<lambda>key idx. store_get (store k) key (Num (int idx))) ?conc (fst sched) w)
        = (Inr data, w')"
    and second: "fst (concurrentMap (map Inr (zip_js keys data))
            (\<lambda>(key, d) idx. getPostprocess k key d opts) ?conc (snd sched) w') = Inr out"
    by (rule mget_phases)
  have len: "length out = length keys"
    using concurrentMap_sound(1) [OF second] by (simp add: zip_js_length)
  have post: "\<exists>u u'. getPostprocess k (keys ! i) (if i < length data then data ! i else Undefined) opts u
        = (Inr (out ! i), u')" if i: "i < length keys" for i
  proof -
    from i have "i < length (map Inr (zip_js keys data))"
      by (simp add: zip_js_length)
    from concurrentMap_sound(2) [OF second this] i show ?thesis
      by (auto simp: zip_js_length zip_js_nth)
  qed
  have raw_ok: "case store_mget (store k) of
               Some native \<Rightarrow>
                 (\<exists>data' w'. native (map (getKeyPrefix k) keys) ?conc w = (Inr data', w')
                    \<and> (if i < length data then data ! i else Undefined)
                       = (if i < length data' then data' ! i else Undefined))
             | None \<Rightarrow>
                 (\<exists>v v'. store_get (store k) (getKeyPrefix k (keys ! i)) (Num (int i)) v
                    = (Inr (if i < length data then data ! i else Undefined), v'))"
    if i: "i < length keys" for i
  proof (cases "store_mget (store k)")
    case (Some native)
    with first show ?thesis by auto
  next
    case None
    with first have c: "fst (concurrentMap (map Inr (map (getKeyPrefix k) keys))
            (\<lambda>key idx. store_get (store k) key (Num (int idx))) ?conc (fst sched) w) = Inr data"
      by simp
    have l: "length data = length keys"
      using concurrentMap_sound(1) [OF c] by simp
    from i have "i < length (map Inr (map (getKeyPrefix k) keys))"
      by simp
    from concurrentMap_sound(2) [OF c this] i l None show ?thesis
      by auto
  qed
  show ?thesis
  proof (intro conjI allI impI)
    show "length out = length keys" by (rule len)
  next
    fix i assume i: "i < length keys"
    from post [OF i] obtain u u' where
      "getPostprocess k (keys ! i) (if i < length data then data ! i else Undefined) opts u
        = (Inr (out ! i), u')"
      by blast
    with raw_ok [OF i]
    show "\<exists>d u u'.
          getPostprocess k (keys ! i) d opts u = (Inr (out ! i), u')
          \<and> (case store_mget (store k) of
               Some native \<Rightarrow>
                 (\<exists>data w'. native (map (getKeyPrefix k) keys) ?conc w = (Inr data, w')
                    \<and> d = (if i < length data then data ! i else Undefined))
             | None \<Rightarrow>
                 (\<exists>v v'. store_get (store k) (getKeyPrefix k (keys ! i)) (Num (int i)) v
                    = (Inr d, v')))"
      by (intro exI [of _ "if i < length data then data ! i else Undefined"] exI [of _ u]
          exI [of _ u'] conjI) assumption+
  qed
qed


lemma run_exact:
  fixes F :: "nat set \<Rightarrow> 'w" and g :: "nat \<Rightarrow> 'r" and xs :: "'a list"
    and func :: "'a \<Rightarrow> nat \<Rightarrow> ('w, 'r) promise"
  assumes k: "n = 0 \<longrightarrow> xs = []"
    and call: "\<And>i I. i < length xs \<Longrightarrow> func (xs ! i) i (F I) = (Inr (g i), F (insert i I))"
  shows "failure (run_workers func (start_pool sched n (map Inr xs) (F {}))) = None
    \<and> world (run_workers func (start_pool sched n (map Inr xs) (F {}))) = F {0..<length xs}
    \<and> (\<forall>p \<in> set (results (run_workers func (start_pool sched n (map Inr xs) (F {})))).
          snd p = g (fst p))
    \<and> mset (map fst (results (run_workers func (start_pool sched n (map Inr xs) (F {})))))
        = mset [0..<length xs]"
proof -
  let ?items = "map Inr xs :: (error + 'a) list"
  let ?start = "start_pool sched n ?items (F {}) :: ('a, 'r, 'w) pool"
  define J where "J st \<longleftrightarrow> pool_inv ?items func st \<and> failure st = None
      \<and> world st = F (fst ` set (results st)) \<and> (\<forall>p \<in> set (results st). snd p = g (fst p))"
    for st :: "('a, 'r, 'w) pool"
  have k': "n = 0 \<longrightarrow> ?items = []"
    using k by simp
  have init: "J ?start"
    unfolding J_def using pool_inv_start [OF k', of func sched "F {}"]
    by (simp add: start_pool_def)
  have step: "J (worker_step func s)" if js: "J s" and ne: "inflight s \<noteq> []" for s
  proof -
    from js have inv: "pool_inv ?items func s" and ok: "failure s = None"
      and ws: "world s = F (fst ` set (results s))"
      and rs: "\<forall>p \<in> set (results s). snd p = g (fst p)"
      unfolding J_def by simp_all
    have inv': "pool_inv ?items func (worker_step func s)"
      using inv ne by (rule pool_inv_step)
    have item: "i < length xs \<and> x = xs ! i"
      if "j < length (inflight s)" and "inflight s ! j = (i, Inr x)" for i j x
    proof -
      have "(i, Inr x) \<in> set (inflight s)"
        using that by (metis nth_mem)
      then have "i < length ?items \<and> Inr x = ?items ! i"
        using inv unfolding pool_inv_def by force
      then show ?thesis by auto
    qed
    have upd: "failure (worker_step func s) = None
        \<and> world (worker_step func s) = F (fst ` set (results (worker_step func s)))
        \<and> (\<forall>p \<in> set (results (worker_step func s)). snd p = g (fst p))"
      if j: "j < length (inflight s)" and p: "inflight s ! j = (i, Inr x)"
        and f: "func x i (world s) = (Inr r, w')"
        and rs': "results (worker_step func s) = results s @ [(i, r)]"
        and fl: "failure (worker_step func s) = failure s"
        and wd: "world (worker_step func s) = w'"
      for j i x r w'
    proof -
      from item [OF j p] have i: "i < length xs" and x: "x = xs ! i"
        by simp_all
      from call [OF i, of "fst ` set (results s)"] f
      have "r = g i" and "w' = F (insert i (fst ` set (results s)))"
        unfolding x ws by simp_all
      then show ?thesis
        unfolding rs' fl wd using ok rs by simp
    qed
    have "failure (worker_step func s) = None
        \<and> world (worker_step func s) = F (fst ` set (results (worker_step func s)))
        \<and> (\<forall>p \<in> set (results (worker_step func s)). snd p = g (fst p))"
      using ne
    proof (cases rule: worker_step_cases [where func = func])
      case (reject j i el)
      have "(i, el) \<in> set (inflight s)"
        using reject(1,2) by (metis nth_mem)
      then have il: "i < length ?items" and el: "el = ?items ! i"
        using inv unfolding pool_inv_def by force+
      then have e: "el = Inr (xs ! i)" and i: "i < length xs"
        by simp_all
      from call [OF i, of "fst ` set (results s)"] reject(3) e
      show ?thesis
        unfolding ws by auto
    next
      case (last j i x r w')
      then show ?thesis by (intro upd [of j i x r w'])
    next
      case (more j i x r w' c cs)
      then show ?thesis by (intro upd [of j i x r w'])
    qed
    with inv' show ?thesis
      unfolding J_def by simp
  qed
  let ?fin = "run_workers func ?start"
  have "J ?fin \<and> inflight ?fin = []"
    using init step by (rule run_workers_rule)
  then have inv: "pool_inv ?items func ?fin" and ok: "failure ?fin = None"
    and wf: "world ?fin = F (fst ` set (results ?fin))"
    and rs: "\<forall>p \<in> set (results ?fin). snd p = g (fst p)"
    and fin: "inflight ?fin = []"
    unfolding J_def by simp_all
  have "mset (map fst (results ?fin)) = mset [0..<length ?items]"
    using inv fin ok by (rule pool_inv_final)
  then have m: "mset (map fst (results ?fin)) = mset [0..<length xs]"
    by simp
  then have "set (map fst (results ?fin)) = set [0..<length xs]"
    by (rule mset_eq_setD)
  then have "fst ` set (results ?fin) = {0..<length xs}"
    by simp
  with wf have "world ?fin = F {0..<length xs}"
    by simp
  with ok rs m show ?thesis
    by (intro conjI)
qed

lemma readout_exact:
  assumes m: "mset (map fst rs) = mset [0..<n]"
    and rs: "\<forall>p \<in> set rs. snd p = g (fst p)"
  shows "map snd (sort_key fst rs) = map g [0..<n]"
    and "promise_all n rs = map g [0..<n]"
proof -
  show "map snd (sort_key fst rs) = map g [0..<n]"
  proof (rule nth_equalityI)
    show "length (map snd (sort_key fst rs)) = length (map g [0..<n])"
      using sorted_readout(1) [OF m] by simp
  next
    fix i assume "i < length (map snd (sort_key fst rs))"
    then have i: "i < n"
      using sorted_readout(1) [OF m] by simp
    from sorted_readout(2) [OF m i] rs have "map snd (sort_key fst rs) ! i = g i"
      by force
    with i show "map snd (sort_key fst rs) ! i = map g [0..<n] ! i"
      by simp
  qed
  show "promise_all n rs = map g [0..<n]"
  proof (rule nth_equalityI)
    show "length (promise_all n rs) = length (map g [0..<n])"
      using promise_all_readout(1) [OF m] by simp
  next
    fix i assume "i < length (promise_all n rs)"
    then have i: "i < n"
      using promise_all_readout(1) [OF m] by simp
    from promise_all_readout(2) [OF m i] rs have "promise_all n rs ! i = g i"
      by force
    with i show "promise_all n rs ! i = map g [0..<n] ! i"
      by simp
  qed
qed

lemma concurrentMap_exact:
  fixes F :: "nat set \<Rightarrow> 'w" and g :: "nat \<Rightarrow> 'r" and xs :: "'a list"
    and func :: "'a \<Rightarrow> nat \<Rightarrow> ('w, 'r) promise"
  assumes call: "\<And>i I. i < length xs \<Longrightarrow> func (xs ! i) i (F I) = (Inr (g i), F (insert i I))"
  shows "concurrentMap (map Inr xs) func conc sched (F {})
      = (Inr (map g [0..<length xs]), F {0..<length xs})"
proof (cases rule: concurrentMap_modes [of "map Inr xs" func conc sched "F {}"])
  case unb
  have "length (map Inr xs) = 0 \<longrightarrow> xs = []"
    by simp
  from run_exact [of "length (map Inr xs)" xs func F g sched, OF this call]
  show ?thesis
    unfolding unb unbounded_map_def Let_def
    by (simp add: readout_exact(2) [where g = g])
next
  case (bnd n)
  then have "n = 0 \<longrightarrow> xs = []"
    by simp
  from run_exact [of n xs func F g sched, OF this call]
  show ?thesis
    unfolding bnd(2) bounded_map_def Let_def
    by (simp add: readout_exact(1) [where g = g])
qed

lemma get_prop_defined:
  "get_prop e a = Inr x \<Longrightarrow> \<exists>y. get_prop e b = Inr y"
  by (cases e) simp_all

lemma post_mem:
  fixes k :: "mem_world keyv"
  assumes del: "store_delete (store k) = map_delete" and clk: "date_now k = time"
    and t: "time u = time w"
  shows "getPostprocess k key d opts u
      = (fst (getPostprocess k key d opts w),
         if will_delete k d (time w)
         then u\<lparr>entries := (entries u)(getKeyPrefix k key := None)\<rparr> else u)"
proof (cases "decode k d")
  case (Inl e)
  then show ?thesis
    by (simp add: getPostprocess_def will_delete_def)
next
  case (Inr e)
  show ?thesis
  proof (cases "e = Undefined")
    case True
    with Inr show ?thesis
      by (simp add: getPostprocess_def will_delete_def expiration_def)
  next
    case False
    show ?thesis
    proof (cases "get_prop e ''expires''")
      case (Inl err)
      with Inr False show ?thesis
        by (simp add: getPostprocess_def will_delete_def expiration_def)
    next
      case ex: (Inr ex)
      with Inr False show ?thesis
        by (simp add: getPostprocess_def will_delete_def expiration_def clk t delete_def del
            map_delete_def)
    qed
  qed
qed

lemma post_resolves_any_world:
  fixes k :: "mem_world keyv"
  assumes del: "store_delete (store k) = map_delete"
    and r: "fst (getPostprocess k key d opts u) = Inr v"
  shows "\<exists>v'. fst (getPostprocess k key d opts w) = Inr v'"
proof (cases "decode k d")
  case (Inl e)
  with r show ?thesis
    by (simp add: getPostprocess_def)
next
  case (Inr e)
  show ?thesis
  proof (cases "e = Undefined")
    case True
    with Inr show ?thesis
      by (simp add: getPostprocess_def expiration_def)
  next
    case False
    show ?thesis
    proof (cases "get_prop e ''expires''")
      case (Inl err)
      with Inr False r show ?thesis
        by (simp add: getPostprocess_def expiration_def)
    next
      case ex: (Inr ex)
      from get_prop_defined [OF ex, of "''value''"] obtain y
        where y: "get_prop e ''value'' = Inr y" by blast
      with Inr False ex show ?thesis
        by (simp add: getPostprocess_def expiration_def delete_def del map_delete_def)
    qed
  qed
qed

lemma post_deleted_iff:
  fixes k :: "mem_world keyv"
  assumes del: "store_delete (store k) = map_delete" and clk: "date_now k = time"
  shows "entries (snd (getPostprocess k key d opts w)) (getKeyPrefix k key) = None
     \<longleftrightarrow> will_delete k d (time w) \<or> entries w (getKeyPrefix k key) = None"
  by (subst post_mem [OF del clk refl]) simp

lemma post_phase_exact:
  fixes k :: "mem_world keyv" and xs :: "(string \<times> jsval) list"
  assumes del: "store_delete (store k) = map_delete" and clk: "date_now k = time"
    and ok: "\<forall>x \<in> set xs. \<exists>v. fst (getPostprocess k (fst x) (snd x) opts w) = Inr v"
  shows "\<exists>out. concurrentMap (map Inr xs) (\<lambda>(key, d) idx. getPostprocess k key d opts) conc sched w
      = (Inr out,
         w\<lparr>entries := (\<lambda>p. if \<exists>x \<in> set xs. p = getKeyPrefix k (fst x)
                \<and> entries (snd (getPostprocess k (fst x) (snd x) opts w)) p = None
              then None else entries w p)\<rparr>)
    \<and> map Inr out = map (\<lambda>x. fst (getPostprocess k (fst x) (snd x) opts w)) xs"
proof -
  define F where "F I = w\<lparr>entries := (\<lambda>p. if \<exists>i \<in> I. i < length xs
        \<and> p = getKeyPrefix k (fst (xs ! i)) \<and> will_delete k (snd (xs ! i)) (time w)
      then None else entries w p)\<rparr>" for I :: "nat set"
  define g where "g i = (case fst (getPostprocess k (fst (xs ! i)) (snd (xs ! i)) opts w) of
      Inr v \<Rightarrow> v | Inl e \<Rightarrow> Undefined)" for i
  let ?func = "(\<lambda>(key, d) idx. getPostprocess k key d opts)
      :: string \<times> jsval \<Rightarrow> nat \<Rightarrow> (mem_world, jsval) promise"
  have F0: "F {} = w"
    by (simp add: F_def)
  have call: "?func (xs ! i) i (F I) = (Inr (g i), F (insert i I))" if i: "i < length xs" for i I
  proof -
    from i ok obtain v where v: "fst (getPostprocess k (fst (xs ! i)) (snd (xs ! i)) opts w) = Inr v"
      by (metis nth_mem)
    have t: "time (F I) = time w"
      by (simp add: F_def)
    have w': "(if will_delete k (snd (xs ! i)) (time w)
        then (F I)\<lparr>entries := (entries (F I))(getKeyPrefix k (fst (xs ! i)) := None)\<rparr>
        else F I) = F (insert i I)"
    proof (cases "will_delete k (snd (xs ! i)) (time w)")
      case True
      have "(\<lambda>p. if \<exists>j \<in> I. j < length xs
              \<and> p = getKeyPrefix k (fst (xs ! j)) \<and> will_delete k (snd (xs ! j)) (time w)
            then None else entries w p)(getKeyPrefix k (fst (xs ! i)) := None)
          = (\<lambda>p. if \<exists>j \<in> insert i I. j < length xs
              \<and> p = getKeyPrefix k (fst (xs ! j)) \<and> will_delete k (snd (xs ! j)) (time w)
            then None else entries w p)"
        using i True by (auto simp: fun_eq_iff)
      with True show ?thesis
        by (simp add: F_def)
    next
      case False
      then have "(\<lambda>p. if \<exists>j \<in> insert i I. j < length xs
              \<and> p = getKeyPrefix k (fst (xs ! j)) \<and> will_delete k (snd (xs ! j)) (time w)
            then None else entries w p)
          = (\<lambda>p. if \<exists>j \<in> I. j < length xs
              \<and> p = getKeyPrefix k (fst (xs ! j)) \<and> will_delete k (snd (xs ! j)) (time w)
            then None else entries w p)"
        by (auto simp: fun_eq_iff)
      with False show ?thesis
        by (simp add: F_def)
    qed
    show ?thesis
      using post_mem [OF del clk t, of "fst (xs ! i)" "snd (xs ! i)" opts] v w'
      by (simp add: case_prod_unfold g_def)
  qed
  have run: "concurrentMap (map Inr xs) ?func conc sched w
      = (Inr (map g [0..<length xs]), F {0..<length xs})"
    using concurrentMap_exact [of xs ?func F g conc sched, OF call] unfolding F0 .
  have vals: "map Inr (map g [0..<length xs])
      = map (\<lambda>x. fst (getPostprocess k (fst x) (snd x) opts w)) xs"
  proof (rule nth_equalityI)
    show "length (map Inr (map g [0..<length xs]))
        = length (map (\<lambda>x. fst (getPostprocess k (fst x) (snd x) opts w)) xs)"
      by simp
  next
    fix i assume "i < length (map Inr (map g [0..<length xs]))"
    then have i: "i < length xs" by simp
    with ok obtain v where "fst (getPostprocess k (fst (xs ! i)) (snd (xs ! i)) opts w) = Inr v"
      by (metis nth_mem)
    with i show "map Inr (map g [0..<length xs]) ! i
        = map (\<lambda>x. fst (getPostprocess k (fst x) (snd x) opts w)) xs ! i"
      by (simp add: g_def)
  qed
  have "(\<exists>i \<in> {0..<length xs}. i < length xs
        \<and> p = getKeyPrefix k (fst (xs ! i)) \<and> will_delete k (snd (xs ! i)) (time w))
      \<longleftrightarrow> (\<exists>x \<in> set xs. p = getKeyPrefix k (fst x) \<and> will_delete k (snd x) (time w))" for p
  proof
    assume "\<exists>i \<in> {0..<length xs}. i < length xs
        \<and> p = getKeyPrefix k (fst (xs ! i)) \<and> will_delete k (snd (xs ! i)) (time w)"
    then obtain i where "i < length xs" "p = getKeyPrefix k (fst (xs ! i))"
      "will_delete k (snd (xs ! i)) (time w)" by blast
    then show "\<exists>x \<in> set xs. p = getKeyPrefix k (fst x) \<and> will_delete k (snd x) (time w)"
      by (intro bexI [of _ "xs ! i"]) simp_all
  next
    assume "\<exists>x \<in> set xs. p = getKeyPrefix k (fst x) \<and> will_delete k (snd x) (time w)"
    then obtain x where "x \<in> set xs" and px: "p = getKeyPrefix k (fst x)"
      "will_delete k (snd x) (time w)" by blast
    then obtain i where "i < length xs" "xs ! i = x"
      by (auto simp: in_set_conv_nth)
    with px show "\<exists>i \<in> {0..<length xs}. i < length xs
        \<and> p = getKeyPrefix k (fst (xs ! i)) \<and> will_delete k (snd (xs ! i)) (time w)"
      by (intro bexI [of _ i]) simp_all
  qed
  then have Fn: "F {0..<length xs}
      = w\<lparr>entries := (\<lambda>p. if \<exists>x \<in> set xs. p = getKeyPrefix k (fst x)
              \<and> will_delete k (snd x) (time w) then None else entries w p)\<rparr>"
    by (simp add: F_def)
  have "(if \<exists>x \<in> set xs. p = getKeyPrefix k (fst x) \<and> will_delete k (snd x) (time w)
         then None else entries w p)
      = (if \<exists>x \<in> set xs. p = getKeyPrefix k (fst x)
                \<and> entries (snd (getPostprocess k (fst x) (snd x) opts w)) p = None
         then None else entries w p)" for p
  proof (cases "\<exists>x \<in> set xs. p = getKeyPrefix k (fst x) \<and> will_delete k (snd x) (time w)")
    case True
    then obtain x where x: "x \<in> set xs" "p = getKeyPrefix k (fst x)"
      "will_delete k (snd x) (time w)" by blast
    then have "entries (snd (getPostprocess k (fst x) (snd x) opts w)) p = None"
      using post_deleted_iff [OF del clk, of "fst x" "snd x" opts w] by simp
    with x have "\<exists>x \<in> set xs. p = getKeyPrefix k (fst x)
        \<and> entries (snd (getPostprocess k (fst x) (snd x) opts w)) p = None"
      by blast
    with True show ?thesis by simp
  next
    case False
    show ?thesis
    proof (cases "\<exists>x \<in> set xs. p = getKeyPrefix k (fst x)
        \<and> entries (snd (getPostprocess k (fst x) (snd x) opts w)) p = None")
      case True
      then obtain x where x: "x \<in> set xs" "p = getKeyPrefix k (fst x)"
        "entries (snd (getPostprocess k (fst x) (snd x) opts w)) p = None" by blast
      then have "will_delete k (snd x) (time w) \<or> entries w p = None"
        using post_deleted_iff [OF del clk, of "fst x" "snd x" opts w] by simp
      moreover have "\<not> will_delete k (snd x) (time w)"
        using False x(1,2) by auto
      ultimately have "entries w p = None"
        by simp
      with False True show ?thesis by simp
    next
      case nd: False
      show ?thesis
        by (simp only: if_not_P [OF False] if_not_P [OF nd])
    qed
  qed
  then have "F {0..<length xs}
      = w\<lparr>entries := (\<lambda>p. if \<exists>x \<in> set xs. p = getKeyPrefix k (fst x)
                \<and> entries (snd (getPostprocess k (fst x) (snd x) opts w)) p = None
              then None else entries w p)\<rparr>"
    unfolding Fn by simp
  with run vals show ?thesis
    by (intro exI [of _ "map g [0..<length xs]"] conjI) simp_all
qed

lemma mget_native:
  assumes "store_mget (store k) = Some native"
  shows "mget k keys opts sched w =
     (case native (map (getKeyPrefix k) keys) (resolve_concurrency opts (concurrency k)) w of
        (Inl e, w') \<Rightarrow> (Inl e, w')
      | (Inr data, w') \<Rightarrow>
          concurrentMap (map Inr (zip_js keys data))
            (\<lambda>(key, d) idx. getPostprocess k key d opts)
            (resolve_concurrency opts (concurrency k)) (snd sched) w')"
  by (simp only: mget_def Let_def assms option.case)

lemma mget_fallback:
  assumes "store_mget (store k) = None"
  shows "mget k keys opts sched w =
     (case concurrentMap (map Inr (map (getKeyPrefix k) keys))
             (\<lambda>key idx. store_get (store k) key (Num (int idx)))
             (resolve_concurrency opts (concurrency k)) (fst sched) w of
        (Inl e, w') \<Rightarrow> (Inl e, w')
      | (Inr data, w') \<Rightarrow>
          concurrentMap (map Inr (zip_js keys data))
            (\<lambda>(key, d) idx. getPostprocess k key d opts)
            (resolve_concurrency opts (concurrency k)) (snd sched) w')"
  by (simp only: mget_def Let_def assms option.case)

lemma Map_reads_exact:
  "concurrentMap (map Inr kp) (\<lambda>key idx. map_get key (Num (int idx))) conc sched w
     = (Inr (map (lookup w) kp), w)"
proof -
  have "concurrentMap (map Inr kp) (\<lambda>key idx. map_get key (Num (int idx))) conc sched
          ((\<lambda>I :: nat set. w) {})
      = (Inr (map (\<lambda>i. lookup w (kp ! i)) [0..<length kp]), (\<lambda>I :: nat set. w) {0..<length kp})"
    by (rule concurrentMap_exact) (simp add: map_get_def lookup_def)
  moreover have "map (\<lambda>i. lookup w (kp ! i)) [0..<length kp] = map (lookup w) kp"
    by (rule nth_equalityI) simp_all
  ultimately show ?thesis by simp
qed

lemma Map_get_is_postprocess:
  fixes k :: "mem_world keyv"
  assumes "store k = Map_store"
  shows "get k key opts w = getPostprocess k key (lookup w (getKeyPrefix k key)) opts w"
  by (simp add: get_def assms Map_store_fields map_get_def lookup_def)

lemma zip_js_map:
  "zip_js keys (map f (map h keys)) = map (\<lambda>key. (key, f (h key))) keys"
  by (rule nth_equalityI) (simp_all add: zip_js_def)

lemma Map_mget_exact:
  fixes k :: "mem_world keyv"
  assumes st: "store k = Map_store" and clk: "date_now k = time"
    and ok: "\<forall>key \<in> set keys. \<exists>v. fst (get k key opts w) = Inr v"
  shows "\<exists>out. mget k keys opts sched w
      = (Inr out,
         w\<lparr>entries := (\<lambda>p. if \<exists>key \<in> set keys. p = getKeyPrefix k key
                \<and> entries (snd (get k key opts w)) p = None
              then None else entries w p)\<rparr>)
    \<and> map Inr out = map (\<lambda>key. fst (get k key opts w)) keys"
proof -
  let ?conc = "resolve_concurrency opts (concurrency k)"
  let ?xs = "map (\<lambda>key. (key, lookup w (getKeyPrefix k key))) keys"
  have del: "store_delete (store k) = map_delete"
    by (simp add: st Map_store_def)
  have g: "getPostprocess k key (lookup w (getKeyPrefix k key)) opts w = get k key opts w" for key
    by (rule Map_get_is_postprocess [OF st, symmetric])
  have m: "mget k keys opts sched w
      = concurrentMap (map Inr ?xs) (\<lambda>(key, d) idx. getPostprocess k key d opts) ?conc (snd sched) w"
    by (simp only: mget_fallback [OF Map_store_fields(1) [folded st]] st Map_store_fields
        Map_reads_exact prod.case sum.case zip_js_map)
  have "\<forall>x \<in> set ?xs. \<exists>v. fst (getPostprocess k (fst x) (snd x) opts w) = Inr v"
    using ok by (simp add: g)
  from post_phase_exact [OF del clk this, of ?conc "snd sched"]
  show ?thesis
    unfolding m by (simp add: g comp_def)
qed

lemma post_rejects_mget:
  fixes k :: "mem_world keyv" and xs :: "(string \<times> jsval) list"
  assumes del: "store_delete (store k) = map_delete"
    and bad: "\<exists>x \<in> set xs. \<exists>e. fst (getPostprocess k (fst x) (snd x) opts w) = Inl e"
  shows "\<exists>e. fst (concurrentMap (map Inr xs) (\<lambda>(key, d) idx. getPostprocess k key d opts)
      conc sched w') = Inl e"
proof (cases "fst (concurrentMap (map Inr xs) (\<lambda>(key, d) idx. getPostprocess k key d opts)
      conc sched w')")
  case (Inl e)
  then show ?thesis by blast
next
  case (Inr out)
  from bad obtain x e where x: "x \<in> set xs"
    and e: "fst (getPostprocess k (fst x) (snd x) opts w) = Inl e" by blast
  from x obtain i where i: "i < length xs" and xi: "xs ! i = x"
    by (auto simp: in_set_conv_nth)
  then have "i < length (map Inr xs)" by simp
  from concurrentMap_sound(2) [OF Inr this] i xi
  have "\<exists>u v. fst (getPostprocess k (fst x) (snd x) opts u) = Inr v"
    by (auto simp: case_prod_unfold) (metis fst_conv)
  then obtain u v where "fst (getPostprocess k (fst x) (snd x) opts u) = Inr v"
    by (elim exE)
  from post_resolves_any_world [OF del this, of w] e show ?thesis
    by simp
qed

lemma mget_resolves:
  assumes first: "(case store_mget (store k) of
        Some native \<Rightarrow> native (map (getKeyPrefix k) keys) (resolve_concurrency opts (concurrency k)) w
      | None \<Rightarrow>
          concurrentMap (map Inr (map (getKeyPrefix k) keys))
            (\<lambda>key idx. store_get (store k) key (Num (int idx)))
            (resolve_concurrency opts (concurrency k)) (fst sched) w) = (Inr data, w1)"
    and total: "\<forall>x \<in> set (zip_js keys data). \<forall>u. \<exists>r u'.
        getPostprocess k (fst x) (snd x) opts u = (Inr r, u')"
  shows "\<exists>out. fst (mget k keys opts sched w) = Inr out"
proof -
  let ?post = "\<lambda>(key, d) (idx :: nat). getPostprocess k key d opts"
  have m: "mget k keys opts sched w
      = concurrentMap (map Inr (zip_js keys data)) ?post
          (resolve_concurrency opts (concurrency k)) (snd sched) w1"
    by (simp only: mget_def Let_def first prod.case sum.case)
  have "\<forall>i<length (map Inr (zip_js keys data)). \<exists>x. map Inr (zip_js keys data) ! i = Inr x
      \<and> (\<forall>u. \<exists>r u'. ?post x i u = (Inr r, u'))"
    using total by (simp add: case_prod_unfold)
  then show ?thesis
    unfolding m by (rule concurrentMap_resolves)
qed

lemma native_mget_exact:
  fixes k :: "mem_world keyv"
  assumes nat: "store_mget (store k) = Some native"
    and first: "native (map (getKeyPrefix k) keys) (resolve_concurrency opts (concurrency k)) w
        = (Inr data, w1)"
    and del: "store_delete (store k) = map_delete" and clk: "date_now k = time"
    and ok: "\<forall>x \<in> set (zip_js keys data). \<exists>v.
        fst (getPostprocess k (fst x) (snd x) opts w1) = Inr v"
  shows "\<exists>out. mget k keys opts sched w
      = (Inr out,
         w1\<lparr>entries := (\<lambda>p. if \<exists>x \<in> set (zip_js keys data). p = getKeyPrefix k (fst x)
                \<and> entries (snd (getPostprocess k (fst x) (snd x) opts w1)) p = None
              then None else entries w1 p)\<rparr>)
    \<and> map Inr out = map (\<lambda>x. fst (getPostprocess k (fst x) (snd x) opts w1)) (zip_js keys data)"
proof -
  have m: "mget k keys opts sched w
      = concurrentMap (map Inr (zip_js keys data)) (\<lambda>(key, d) idx. getPostprocess k key d opts)
          (resolve_concurrency opts (concurrency k)) (snd sched) w1"
    by (simp only: mget_native [OF nat] first prod.case sum.case)
  show ?thesis
    unfolding m by (rule post_phase_exact [OF del clk ok])
qed

lemma Map_mget_rejects:
  fixes k :: "mem_world keyv"
  assumes st: "store k = Map_store"
    and bad: "\<exists>key \<in> set keys. \<exists>e. fst (get k key opts w) = Inl e"
  shows "\<exists>e. fst (mget k keys opts sched w) = Inl e"
proof -
  let ?conc = "resolve_concurrency opts (concurrency k)"
  let ?xs = "map (\<lambda>key. (key, lookup w (getKeyPrefix k key))) keys"
  have del: "store_delete (store k) = map_delete"
    by (simp add: st Map_store_def)
  have g: "getPostprocess k key (lookup w (getKeyPrefix k key)) opts w = get k key opts w" for key
    by (rule Map_get_is_postprocess [OF st, symmetric])
  have m: "mget k keys opts sched w
      = concurrentMap (map Inr ?xs) (\<lambda>(key, d) idx. getPostprocess k key d opts) ?conc (snd sched) w"
    by (simp only: mget_fallback [OF Map_store_fields(1) [folded st]] st Map_store_fields
        Map_reads_exact prod.case sum.case zip_js_map)
  have "\<exists>x \<in> set ?xs. \<exists>e. fst (getPostprocess k (fst x) (snd x) opts w) = Inl e"
    using bad by (simp add: g)
  then show ?thesis
    unfolding m by (rule post_rejects_mget [OF del])
qed


text \<open>
  Claim C5. \<^verbatim>\<open>mget(keys, opts)\<close> is the adapter's own \<^verbatim>\<open>mget\<close> on the prefixed
  keys when the adapter has one, else the mapper with the adapter's \<^verbatim>\<open>get\<close> on each
  prefixed key, followed in both cases by the mapper with \<^verbatim>\<open>_getPostprocess\<close> on
  each raw form under its logical key, in the world the reads left. A sequence it
  resolves to has the length of \<open>keys\<close> and its i-th element comes from the i-th key;
  it resolves when the reads resolve and no \<^verbatim>\<open>_getPostprocess\<close> rejects. On an
  in-memory world the outcome is exact for every concurrency and schedule: with a batch
  read of the adapter's own, element i is the result of \<^verbatim>\<open>_getPostprocess\<close> on the
  i-th key and raw form, and exactly the expired entries are deleted; on the default store
  the sequence is that of the single \<^verbatim>\<open>get\<close>s in key order, the store loses exactly
  the entries they would delete, and \<^verbatim>\<open>mget\<close> rejects when one of them rejects.
\<close>

theorem mget_keeps_key_order:
  fixes k :: "'w keyv" and km :: "mem_world keyv"
  shows "(\<forall>out. fst (mget k keys opts sched w) = Inr out \<longrightarrow>
      length out = length keys
      \<and> (\<forall>i<length keys. \<exists>d u u'.
            getPostprocess k (keys ! i) d opts u = (Inr (out ! i), u')
            \<and> (case store_mget (store k) of
                 Some native \<Rightarrow>
                   (\<exists>data w'. native (map (getKeyPrefix k) keys)
                          (resolve_concurrency opts (concurrency k)) w = (Inr data, w')
                      \<and> d = (if i < length data then data ! i else Undefined))
               | None \<Rightarrow>
                   (\<exists>v v'. store_get (store k) (getKeyPrefix k (keys ! i)) (Num (int i)) v
                      = (Inr d, v')))))
   \<and> (\<forall>native. store_mget (store k) = Some native \<longrightarrow>
        mget k keys opts sched w =
          (case native (map (getKeyPrefix k) keys) (resolve_concurrency opts (concurrency k)) w of
             (Inl e, w') \<Rightarrow> (Inl e, w')
           | (Inr data, w') \<Rightarrow>
               concurrentMap (map Inr (zip_js keys data))
                 (\<lambda>(key, d) idx. getPostprocess k key d opts)
                 (resolve_concurrency opts (concurrency k)) (snd sched) w'))
   \<and> (store_mget (store k) = None \<longrightarrow>
        mget k keys opts sched w =
          (case concurrentMap (map Inr (map (getKeyPrefix k) keys))
                  (\<lambda>key idx. store_get (store k) key (Num (int idx)))
                  (resolve_concurrency opts (concurrency k)) (fst sched) w of
             (Inl e, w') \<Rightarrow> (Inl e, w')
           | (Inr data, w') \<Rightarrow>
               concurrentMap (map Inr (zip_js keys data))
                 (\<lambda>(key, d) idx. getPostprocess k key d opts)
                 (resolve_concurrency opts (concurrency k)) (snd sched) w'))
   \<and> (\<forall>data w1.
        (case store_mget (store k) of
           Some native \<Rightarrow>
             native (map (getKeyPrefix k) keys) (resolve_concurrency opts (concurrency k)) w
         | None \<Rightarrow>
             concurrentMap (map Inr (map (getKeyPrefix k) keys))
               (\<lambda>key idx. store_get (store k) key (Num (int idx)))
               (resolve_concurrency opts (concurrency k)) (fst sched) w) = (Inr data, w1)
        \<and> (\<forall>x \<in> set (zip_js keys data). \<forall>u. \<exists>r u'.
              getPostprocess k (fst x) (snd x) opts u = (Inr r, u'))
        \<longrightarrow> (\<exists>out. fst (mget k keys opts sched w) = Inr out))
   \<and> (\<forall>native data w1.
        store_mget (store km) = Some native
        \<and> native (map (getKeyPrefix km) keys) (resolve_concurrency opts (concurrency km)) wm
            = (Inr data, w1)
        \<and> store_delete (store km) = map_delete \<and> date_now km = time
        \<and> (\<forall>x \<in> set (zip_js keys data). \<exists>v.
              fst (getPostprocess km (fst x) (snd x) opts w1) = Inr v)
        \<longrightarrow> (\<exists>out. mget km keys opts sched wm
              = (Inr out,
                 w1\<lparr>entries := (\<lambda>p. if \<exists>x \<in> set (zip_js keys data). p = getKeyPrefix km (fst x)
                        \<and> entries (snd (getPostprocess km (fst x) (snd x) opts w1)) p = None
                      then None else entries w1 p)\<rparr>)
            \<and> map Inr out
                = map (\<lambda>x. fst (getPostprocess km (fst x) (snd x) opts w1)) (zip_js keys data)))
   \<and> (store km = Map_store \<and> date_now km = time
        \<and> (\<forall>key \<in> set keys. \<exists>v. fst (get km key opts wm) = Inr v)
        \<longrightarrow> (\<exists>out. mget km keys opts sched wm
              = (Inr out,
                 wm\<lparr>entries := (\<lambda>p. if \<exists>key \<in> set keys. p = getKeyPrefix km key
                        \<and> entries (snd (get km key opts wm)) p = None
                      then None else entries wm p)\<rparr>)
            \<and> map Inr out = map (\<lambda>key. fst (get km key opts wm)) keys))
   \<and> (store km = Map_store
        \<and> (\<exists>key \<in> set keys. \<exists>e. fst (get km key opts wm) = Inl e)
        \<longrightarrow> (\<exists>e. fst (mget km keys opts sched wm) = Inl e))"
proof (intro conjI allI impI)
  fix out
  assume res: "fst (mget k keys opts sched w) = Inr out"
  show "length out = length keys"
    using mget_sound [OF res] by (rule conjunct1)
next
  fix out i
  assume res: "fst (mget k keys opts sched w) = Inr out" and i: "i < length keys"
  from mget_sound [OF res, THEN conjunct2, rule_format, OF i]
  show "\<exists>d u u'.
            getPostprocess k (keys ! i) d opts u = (Inr (out ! i), u')
            \<and> (case store_mget (store k) of
                 Some native \<Rightarrow>
                   (\<exists>data w'. native (map (getKeyPrefix k) keys)
                          (resolve_concurrency opts (concurrency k)) w = (Inr data, w')
                      \<and> d = (if i < length data then data ! i else Undefined))
               | None \<Rightarrow>
                   (\<exists>v v'. store_get (store k) (getKeyPrefix k (keys ! i)) (Num (int i)) v
                      = (Inr d, v')))" .
next
  fix native
  assume "store_mget (store k) = Some native"
  then show "mget k keys opts sched w =
          (case native (map (getKeyPrefix k) keys) (resolve_concurrency opts (concurrency k)) w of
             (Inl e, w') \<Rightarrow> (Inl e, w')
           | (Inr data, w') \<Rightarrow>
               concurrentMap (map Inr (zip_js keys data))
                 (\<lambda>(key, d) idx. getPostprocess k key d opts)
                 (resolve_concurrency opts (concurrency k)) (snd sched) w')"
    by (rule mget_native)
next
  assume "store_mget (store k) = None"
  then show "mget k keys opts sched w =
          (case concurrentMap (map Inr (map (getKeyPrefix k) keys))
                  (\<lambda>key idx. store_get (store k) key (Num (int idx)))
                  (resolve_concurrency opts (concurrency k)) (fst sched) w of
             (Inl e, w') \<Rightarrow> (Inl e, w')
           | (Inr data, w') \<Rightarrow>
               concurrentMap (map Inr (zip_js keys data))
                 (\<lambda>(key, d) idx. getPostprocess k key d opts)
                 (resolve_concurrency opts (concurrency k)) (snd sched) w')"
    by (rule mget_fallback)
next
  fix data w1
  assume "(case store_mget (store k) of
           Some native \<Rightarrow>
             native (map (getKeyPrefix k) keys) (resolve_concurrency opts (concurrency k)) w
         | None \<Rightarrow>
             concurrentMap (map Inr (map (getKeyPrefix k) keys))
               (\<lambda>key idx. store_get (store k) key (Num (int idx)))
               (resolve_concurrency opts (concurrency k)) (fst sched) w) = (Inr data, w1)
        \<and> (\<forall>x \<in> set (zip_js keys data). \<forall>u. \<exists>r u'.
              getPostprocess k (fst x) (snd x) opts u = (Inr r, u'))"
  then show "\<exists>out. fst (mget k keys opts sched w) = Inr out"
    by (elim conjE) (rule mget_resolves)
next
  fix native data w1
  assume "store_mget (store km) = Some native
        \<and> native (map (getKeyPrefix km) keys) (resolve_concurrency opts (concurrency km)) wm
            = (Inr data, w1)
        \<and> store_delete (store km) = map_delete \<and> date_now km = time
        \<and> (\<forall>x \<in> set (zip_js keys data). \<exists>v.
              fst (getPostprocess km (fst x) (snd x) opts w1) = Inr v)"
  then show "\<exists>out. mget km keys opts sched wm
              = (Inr out,
                 w1\<lparr>entries := (\<lambda>p. if \<exists>x \<in> set (zip_js keys data). p = getKeyPrefix km (fst x)
                        \<and> entries (snd (getPostprocess km (fst x) (snd x) opts w1)) p = None
                      then None else entries w1 p)\<rparr>)
            \<and> map Inr out
                = map (\<lambda>x. fst (getPostprocess km (fst x) (snd x) opts w1)) (zip_js keys data)"
    by (elim conjE) (rule native_mget_exact)
next
  assume "store km = Map_store \<and> date_now km = time
        \<and> (\<forall>key \<in> set keys. \<exists>v. fst (get km key opts wm) = Inr v)"
  then show "\<exists>out. mget km keys opts sched wm
              = (Inr out,
                 wm\<lparr>entries := (\<lambda>p. if \<exists>key \<in> set keys. p = getKeyPrefix km key
                        \<and> entries (snd (get km key opts wm)) p = None
                      then None else entries wm p)\<rparr>)
            \<and> map Inr out = map (\<lambda>key. fst (get km key opts wm)) keys"
    by (elim conjE) (rule Map_mget_exact)
next
  assume "store km = Map_store
        \<and> (\<exists>key \<in> set keys. \<exists>e. fst (get km key opts wm) = Inl e)"
  then show "\<exists>e. fst (mget km keys opts sched wm) = Inl e"
    by (elim conjE) (rule Map_mget_rejects)
qed

theorem mget_keeps_key_order_witness:
  "fst (mget (demo_keyv ''keyv'' Undefined) [''b'', ''zz'', ''a''] None ([1], [2])
          (demo_world [(''keyv:a'', Str ''3/never''), (''keyv:b'', Str ''3/105'')] 200))
     = Inr [Undefined, Undefined, Num 3]
   \<and> length [Undefined, Undefined, Num 3] = length [''b'', ''zz'', ''a'']
   \<and> entries (snd (mget (demo_keyv ''keyv'' Undefined) [''b'', ''zz'', ''a''] None ([1], [2])
          (demo_world [(''keyv:a'', Str ''3/never''), (''keyv:b'', Str ''3/105'')] 200)))
        ''keyv:b'' = None
   \<and> entries (snd (mget (demo_keyv ''keyv'' Undefined) [''b'', ''zz'', ''a''] None ([1], [2])
          (demo_world [(''keyv:a'', Str ''3/never''), (''keyv:b'', Str ''3/105'')] 200)))
        ''keyv:a'' = Some (Str ''3/never'')
   \<and> fst (mget batch_keyv [''b'', ''zz'', ''a''] None ([1], [2])
          (demo_world [(''keyv:a'', Str ''3/never''), (''keyv:b'', Str ''3/105'')] 200))
     = Inr [Undefined, Undefined, Num 3]
   \<and> entries (snd (mget batch_keyv [''b'', ''zz'', ''a''] None ([1], [2])
          (demo_world [(''keyv:a'', Str ''3/never''), (''keyv:b'', Str ''3/105'')] 200)))
        ''keyv:b'' = None
   \<and> (\<exists>e. fst (mget (demo_keyv ''keyv'' Undefined) [''a'', ''bad''] None ([], [])
          (demo_world [(''keyv:bad'', Str ''garbage'')] 0)) = Inl e)
   \<and> (\<exists>out. fst (mget batch_keyv [''b'', ''zz'', ''a'']
          (Some \<lparr>raw = False, call_concurrency = Some 2\<rparr>) ([], [1, 0])
          (demo_world [(''keyv:a'', Str ''3/never''), (''keyv:b'', Str ''3/105'')] 200)) = Inr out)
   \<and> fst (mget (demo_keyv ''keyv'' Undefined) [''b'', ''zz'', ''a'']
          (Some \<lparr>raw = False, call_concurrency = Some 2\<rparr>) ([1, 0], [1, 0])
          (demo_world [(''keyv:a'', Str ''3/never''), (''keyv:b'', Str ''3/105'')] 200))
     = Inr [Undefined, Undefined, Num 3]"
proof -
  let ?D = "demo_keyv ''keyv'' Undefined"
  let ?B = "batch_keyv"
  let ?keys = "[''b'', ''zz'', ''a'']"
  let ?W = "demo_world [(''keyv:a'', Str ''3/never''), (''keyv:b'', Str ''3/105'')] 200"
  let ?out = "[Undefined, Undefined, Num 3]"
  note defs = get_def getPostprocess_def decode_def expiration_def expired_def delete_def
    wants_raw_def demo_keyv_def demo_world_def demo_deserialize_def entry_def Map_store_def
    map_get_def map_delete_def getKeyPrefix_def batch_keyv_def
  have pk: "getKeyPrefix ?D key = ''keyv:'' @ key" "getKeyPrefix ?B key = ''keyv:'' @ key" for key
    by (simp_all add: getKeyPrefix_def demo_keyv_def batch_keyv_def)
  have gb: "fst (get ?D ''b'' None ?W) = Inr Undefined"
    and gz: "fst (get ?D ''zz'' None ?W) = Inr Undefined"
    and ga: "fst (get ?D ''a'' None ?W) = Inr (Num 3)"
    by (simp_all add: defs)
  have eb: "entries (snd (get ?D ''b'' None ?W)) ''keyv:b'' = None"
    and ea: "entries (snd (get ?D ''a'' None ?W)) ''keyv:a'' = Some (Str ''3/never'')"
    by (simp_all add: defs)
  have h6: "store ?D = Map_store \<and> date_now ?D = time
      \<and> (\<forall>key \<in> set ?keys. \<exists>v. fst (get ?D key None ?W) = Inr v)"
    using gb gz ga by (simp add: demo_keyv_def)
  from mget_keeps_key_order [where km = ?D and keys = ?keys and opts = None
      and sched = "([1], [2])" and wm = ?W, THEN conjunct2, THEN conjunct2, THEN conjunct2,
      THEN conjunct2, THEN conjunct2, THEN conjunct1, THEN mp, OF h6]
  obtain out where m: "mget ?D ?keys None ([1], [2]) ?W
      = (Inr out, ?W\<lparr>entries := (\<lambda>p. if \<exists>key \<in> set ?keys. p = getKeyPrefix ?D key
                \<and> entries (snd (get ?D key None ?W)) p = None
              then None else entries ?W p)\<rparr>)"
    and o: "map Inr out = map (\<lambda>key. fst (get ?D key None ?W)) ?keys"
    by blast
  from o have out: "out = ?out"
    by (auto simp: gb gz ga)
  have 1: "fst (mget ?D ?keys None ([1], [2]) ?W) = Inr ?out"
    unfolding m out by simp
  have 3: "entries (snd (mget ?D ?keys None ([1], [2]) ?W)) ''keyv:b'' = None"
    unfolding m using eb by (simp add: pk)
  have 4: "entries (snd (mget ?D ?keys None ([1], [2]) ?W)) ''keyv:a'' = Some (Str ''3/never'')"
    unfolding m using ea by (simp add: pk demo_world_def)
  have 2: "length ?out = length ?keys"
    by (rule mget_keeps_key_order [where k = ?D and keys = ?keys and opts = None
      and sched = "([1], [2])" and w = ?W, THEN conjunct1, THEN spec, THEN mp, OF 1,
      THEN conjunct1])
  let ?data = "[Str ''3/105'', Undefined, Str ''3/never'']"
  have z: "zip_js ?keys ?data
      = [(''b'', Str ''3/105''), (''zz'', Undefined), (''a'', Str ''3/never'')]"
    by code_simp
  have pb: "getPostprocess ?B ''b'' (Str ''3/105'') None ?W
      = (Inr Undefined, ?W\<lparr>entries := (entries ?W)(''keyv:b'' := None)\<rparr>)"
    and pz: "getPostprocess ?B ''zz'' Undefined None ?W = (Inr Undefined, ?W)"
    and pa: "getPostprocess ?B ''a'' (Str ''3/never'') None ?W = (Inr (Num 3), ?W)"
    by (simp_all add: defs)
  have h5: "store_mget (store ?B) = Some map_mget
      \<and> map_mget (map (getKeyPrefix ?B) ?keys) (resolve_concurrency None (concurrency ?B)) ?W
          = (Inr ?data, ?W)
      \<and> store_delete (store ?B) = map_delete \<and> date_now ?B = time
      \<and> (\<forall>x \<in> set (zip_js ?keys ?data). \<exists>v.
            fst (getPostprocess ?B (fst x) (snd x) None ?W) = Inr v)"
    unfolding z by (simp add: pb pz pa) (simp add: defs map_mget_def)
  from mget_keeps_key_order [where km = ?B and keys = ?keys and opts = None
      and sched = "([1], [2])" and wm = ?W, THEN conjunct2, THEN conjunct2, THEN conjunct2,
      THEN conjunct2, THEN conjunct1, THEN spec, THEN spec, THEN spec, THEN mp, OF h5]
  obtain outb where mb: "mget ?B ?keys None ([1], [2]) ?W
      = (Inr outb, ?W\<lparr>entries := (\<lambda>p. if \<exists>x \<in> set (zip_js ?keys ?data).
                p = getKeyPrefix ?B (fst x)
                \<and> entries (snd (getPostprocess ?B (fst x) (snd x) None ?W)) p = None
              then None else entries ?W p)\<rparr>)"
    and ob: "map Inr outb
        = map (\<lambda>x. fst (getPostprocess ?B (fst x) (snd x) None ?W)) (zip_js ?keys ?data)"
    by blast
  from ob have outb: "outb = ?out"
    unfolding z by (auto simp: pb pz pa)
  have 5: "fst (mget ?B ?keys None ([1], [2]) ?W) = Inr ?out"
    unfolding mb outb by simp
  have 6: "entries (snd (mget ?B ?keys None ([1], [2]) ?W)) ''keyv:b'' = None"
    unfolding mb z by (simp add: pk pb)
  let ?W2 = "demo_world [(''keyv:bad'', Str ''garbage'')] 0"
  have "fst (get ?D ''bad'' None ?W2) = Inl (CodecError ''malformed'')"
    by (simp add: defs)
  then have h7: "store ?D = Map_store
      \<and> (\<exists>key \<in> set [''a'', ''bad'']. \<exists>e. fst (get ?D key None ?W2) = Inl e)"
    by (simp add: demo_keyv_def)
  have 7: "\<exists>e. fst (mget ?D [''a'', ''bad''] None ([], []) ?W2) = Inl e"
    by (rule mget_keeps_key_order [where km = ?D and keys = "[''a'', ''bad'']" and opts = None
      and sched = "([], [])" and wm = ?W2, THEN conjunct2, THEN conjunct2, THEN conjunct2,
      THEN conjunct2, THEN conjunct2, THEN conjunct2, THEN mp, OF h7])
  let ?o2 = "Some \<lparr>raw = False, call_concurrency = Some 2\<rparr>"
  have h4: "(case store_mget (store ?B) of
           Some native \<Rightarrow>
             native (map (getKeyPrefix ?B) ?keys) (resolve_concurrency ?o2 (concurrency ?B)) ?W
         | None \<Rightarrow>
             concurrentMap (map Inr (map (getKeyPrefix ?B) ?keys))
               (\<lambda>key idx. store_get (store ?B) key (Num (int idx)))
               (resolve_concurrency ?o2 (concurrency ?B)) (fst ([], [1, 0])) ?W) = (Inr ?data, ?W)
        \<and> (\<forall>x \<in> set (zip_js ?keys ?data). \<forall>u. \<exists>r u'.
              getPostprocess ?B (fst x) (snd x) ?o2 u = (Inr r, u'))"
    unfolding z by (simp add: defs map_mget_def)
  have 8: "\<exists>out. fst (mget ?B ?keys ?o2 ([], [1, 0]) ?W) = Inr out"
    by (rule mget_keeps_key_order [where k = ?B and keys = ?keys and opts = ?o2
      and sched = "([], [1, 0])" and w = ?W, THEN conjunct2, THEN conjunct2, THEN conjunct2,
      THEN conjunct1, THEN spec, THEN spec, THEN mp, OF h4])
  have gb2: "fst (get ?D ''b'' ?o2 ?W) = Inr Undefined"
    and gz2: "fst (get ?D ''zz'' ?o2 ?W) = Inr Undefined"
    and ga2: "fst (get ?D ''a'' ?o2 ?W) = Inr (Num 3)"
    by (simp_all add: defs)
  have h9: "store ?D = Map_store \<and> date_now ?D = time
      \<and> (\<forall>key \<in> set ?keys. \<exists>v. fst (get ?D key ?o2 ?W) = Inr v)"
    using gb2 gz2 ga2 by (simp add: demo_keyv_def)
  from mget_keeps_key_order [where km = ?D and keys = ?keys and opts = ?o2
      and sched = "([1, 0], [1, 0])" and wm = ?W, THEN conjunct2, THEN conjunct2, THEN conjunct2,
      THEN conjunct2, THEN conjunct2, THEN conjunct1, THEN mp, OF h9]
  obtain out2 where m2: "fst (mget ?D ?keys ?o2 ([1, 0], [1, 0]) ?W) = Inr out2"
    and o2: "map Inr out2 = map (\<lambda>key. fst (get ?D key ?o2 ?W)) ?keys"
    by auto
  from o2 have out2: "out2 = ?out"
    by (auto simp: gb2 gz2 ga2)
  have 9: "fst (mget ?D ?keys ?o2 ([1, 0], [1, 0]) ?W) = Inr ?out"
    unfolding m2 out2 by simp
  from 1 2 3 4 5 6 7 8 9 show ?thesis
    by (intro conjI)
qed

section \<open>Batch write\<close>

text \<open>Writes of distinct keys to the in-memory store reach the same state in any order.\<close>

lemma Map_writes_run:
  fixes xs :: "(string \<times> jsval) list" and w :: mem_world
  assumes d: "distinct (map fst xs)" and k: "n = 0 \<longrightarrow> xs = []"
  shows "failure (run_workers (\<lambda>(key, v) idx. map_set key v t)
            (start_pool sched n (map Inr xs) w) :: (string \<times> jsval, jsval, mem_world) pool) = None
    \<and> world (run_workers (\<lambda>(key, v) idx. map_set key v t)
            (start_pool sched n (map Inr xs) w) :: (string \<times> jsval, jsval, mem_world) pool)
        = w\<lparr>entries := entries w ++ map_of xs\<rparr>"
proof -
  let ?items = "map Inr xs :: (error + string \<times> jsval) list"
  let ?func = "(\<lambda>(key, v) idx. map_set key v t) :: string \<times> jsval \<Rightarrow> nat \<Rightarrow> (mem_world, jsval) promise"
  let ?start = "start_pool sched n ?items w :: (string \<times> jsval, jsval, mem_world) pool"
  define written where "written st = (\<lambda>i. fst (xs ! i)) ` fst ` set (results st)"
    for st :: "(string \<times> jsval, jsval, mem_world) pool"
  define J where "J st \<longleftrightarrow> pool_inv ?items ?func st \<and> failure st = None
      \<and> world st = w\<lparr>entries := (\<lambda>p. if p \<in> written st then map_of xs p else entries w p)\<rparr>"
    for st :: "(string \<times> jsval, jsval, mem_world) pool"
  have k': "n = 0 \<longrightarrow> ?items = []"
    using k by simp
  have total: "\<forall>i<length ?items. \<exists>x. ?items ! i = Inr x \<and> (\<forall>u. \<exists>r u'. ?func x i u = (Inr r, u'))"
    by (simp add: map_set_def split: prod.split)
  have init: "J ?start"
    unfolding J_def using pool_inv_start [OF k', of ?func sched w]
    by (simp add: start_pool_def written_def)
  have step: "J (worker_step ?func s)" if js: "J s" and ne: "inflight s \<noteq> []" for s
  proof -
    from js have inv: "pool_inv ?items ?func s" and ok: "failure s = None"
      and ws: "world s = w\<lparr>entries := (\<lambda>p. if p \<in> written s then map_of xs p else entries w p)\<rparr>"
      unfolding J_def by simp_all
    have inv': "pool_inv ?items ?func (worker_step ?func s)"
      using inv ne by (rule pool_inv_step)
    have ok': "failure (worker_step ?func s) = None"
      using total inv ok ne by (rule no_failure_step)
    have upd: "world (worker_step ?func s)
        = w\<lparr>entries := (\<lambda>p. if p \<in> written (worker_step ?func s) then map_of xs p else entries w p)\<rparr>"
      if j: "j < length (inflight s)" and p: "inflight s ! j = (i, Inr x)"
        and f: "?func x i (world s) = (Inr r, w')"
        and rs: "results (worker_step ?func s) = results s @ [(i, r)]"
        and wd: "world (worker_step ?func s) = w'"
      for j i x r w'
    proof -
      have "(i, Inr x) \<in> set (inflight s)"
        using j p by (metis nth_mem)
      then have "i < length ?items \<and> Inr x = ?items ! i"
        using inv unfolding pool_inv_def by force
      then have i: "i < length xs" and x: "x = xs ! i"
        by auto
      then have "(fst x, snd x) \<in> set xs"
        by simp
      with d have m: "map_of xs (fst x) = Some (snd x)"
        by (rule map_of_is_SomeI)
      have wr: "written (worker_step ?func s) = insert (fst x) (written s)"
        unfolding written_def rs using x by simp
      from f have "w' = (world s)\<lparr>entries := (entries (world s))(fst x \<mapsto> snd x)\<rparr>"
        by (simp add: map_set_def split: prod.splits)
      then show ?thesis
        unfolding wd wr ws using m by (auto simp: fun_eq_iff)
    qed
    have "world (worker_step ?func s)
        = w\<lparr>entries := (\<lambda>p. if p \<in> written (worker_step ?func s) then map_of xs p else entries w p)\<rparr>"
      using ne
    proof (cases rule: worker_step_cases [where func = ?func])
      case (reject j i el)
      with ok' show ?thesis by simp
    next
      case (last j i x r w')
      then show ?thesis by (intro upd [of j i x r w'])
    next
      case (more j i x r w' c cs)
      then show ?thesis by (intro upd [of j i x r w'])
    qed
    with inv' ok' show ?thesis
      unfolding J_def by simp
  qed
  let ?fin = "run_workers ?func ?start"
  have "J ?fin \<and> inflight ?fin = []"
    using init step by (rule run_workers_rule)
  then have inv: "pool_inv ?items ?func ?fin" and ok: "failure ?fin = None"
    and wf: "world ?fin = w\<lparr>entries := (\<lambda>p. if p \<in> written ?fin then map_of xs p else entries w p)\<rparr>"
    and fin: "inflight ?fin = []"
    unfolding J_def by simp_all
  have "mset (map fst (results ?fin)) = mset [0..<length ?items]"
    using inv fin ok by (rule pool_inv_final)
  then have "set (map fst (results ?fin)) = set [0..<length ?items]"
    by (rule mset_eq_setD)
  then have "fst ` set (results ?fin) = {0..<length xs}"
    by simp
  then have "written ?fin = (\<lambda>i. fst (xs ! i)) ` {0..<length xs}"
    unfolding written_def by simp
  also have "\<dots> = fst ` (nth xs ` {0..<length xs})"
    by (simp add: image_image)
  also have "nth xs ` {0..<length xs} = set xs"
    using nth_image [of "length xs" xs] by simp
  finally have "written ?fin = fst ` set xs" .
  then have "(\<lambda>p. if p \<in> written ?fin then map_of xs p else entries w p) = entries w ++ map_of xs"
    by (auto simp: fun_eq_iff map_add_def map_of_eq_None_iff split: option.split
        dest: map_of_SomeD intro: rev_image_eqI)
  with wf ok show ?thesis by simp
qed

lemma Map_concurrentMap_writes:
  fixes xs :: "(string \<times> jsval) list" and w :: mem_world
  assumes d: "distinct (map fst xs)"
  shows "\<exists>out. concurrentMap (map Inr xs) (\<lambda>(key, v) idx. map_set key v t) conc sched w
      = (Inr out, w\<lparr>entries := entries w ++ map_of xs\<rparr>)"
proof (cases rule: concurrentMap_modes
    [of "map Inr xs" "\<lambda>(key, v) idx. map_set key v t" conc sched w])
  case unb
  have "length (map Inr xs) = 0 \<longrightarrow> xs = []"
    by simp
  from Map_writes_run [OF d this, of t sched w] show ?thesis
    unfolding unb by (simp add: unbounded_map_def Let_def)
next
  case (bnd n)
  then have "n = 0 \<longrightarrow> xs = []"
    by simp
  from Map_writes_run [OF d this, of t sched w] show ?thesis
    unfolding bnd(2) by (simp add: bounded_map_def Let_def)
qed

lemma zip_js_keys: "map fst (zip_js a b) = a"
  by (simp add: zip_js_def map_nth comp_def)

lemma getKeyPrefix_distinct: "distinct keys \<Longrightarrow> distinct (map (getKeyPrefix k) keys)"
  by (simp add: distinct_map inj_on_def getKeyPrefix_def)

lemma Map_mset:
  fixes k :: "mem_world keyv"
  assumes st: "store k = Map_store" and d: "distinct (fst (mset_args call))"
  shows "mset_keyv k call sched w =
     (case mset_encode k call w of
        Inl e \<Rightarrow> (Inl e, w)
      | Inr encs \<Rightarrow>
          (Inr (Bool True),
           w\<lparr>entries := entries w
                ++ map_of (zip_js (map (getKeyPrefix k) (fst (mset_args call))) encs)\<rparr>))"
proof -
  obtain keys vals t opts where a: "mset_args call = (keys, vals, t, opts)"
    by (cases "mset_args call")
  show ?thesis
  proof (cases "mset_encode k call w")
    case (Inl e)
    with a show ?thesis
      by (simp add: mset_keyv_def)
  next
    case (Inr encs)
    have "distinct (map fst (zip_js (map (getKeyPrefix k) keys) encs))"
      unfolding zip_js_keys using d a by (simp add: getKeyPrefix_distinct)
    from Map_concurrentMap_writes [OF this, of "ttl_js t"
        "resolve_concurrency opts (concurrency k)" sched w]
    obtain out where "concurrentMap (map Inr (zip_js (map (getKeyPrefix k) keys) encs))
        (\<lambda>(key, v) idx. map_set key v (ttl_js t)) (resolve_concurrency opts (concurrency k)) sched w
      = (Inr out, w\<lparr>entries := entries w ++ map_of (zip_js (map (getKeyPrefix k) keys) encs)\<rparr>)"
      by blast
    with a Inr st show ?thesis
      by (simp add: mset_keyv_def Map_store_def)
  qed
qed

lemma mset_args_Mapping:
  "mset_args (Mapping m t opts) = (map fst m, map snd m, swap_ttl_opts t opts)"
  by (cases "swap_ttl_opts t opts") (simp add: mset_args_def)

lemma mset_args_Arrays:
  "mset_args (Arrays ks vs t opts)
     = (ks, vs, t, Some (case opts of None \<Rightarrow> empty_opts | Some o' \<Rightarrow> o'))"
  by (cases t) (simp_all add: mset_args_def)

lemma setPreprocess_no_number:
  "(\<forall>n. t \<noteq> Num n) \<Longrightarrow> t \<noteq> Undefined \<Longrightarrow> setPreprocess k v t w = serialize k (entry v Null)"
  by (cases t) (simp_all add: setPreprocess_def expires_for_def)

lemma mset_encode_shapes:
  "mset_encode k (Mapping m t opts) w = mset_encode k (Arrays (map fst m) (map snd m) t opts) w"
proof (cases "\<exists>o'. t = TtlOpts o' \<and> opts = None")
  case True
  then obtain o' where t: "t = TtlOpts o'" and o: "opts = None" by blast
  have "setPreprocess k v (ttl_js TtlNull) w = setPreprocess k v (ttl_js (TtlOpts o')) w" for v
    by (simp add: setPreprocess_no_number opts_js_def)
  then show ?thesis
    unfolding mset_encode_def mset_args_Mapping mset_args_Arrays t o by simp
next
  case False
  then have "fst (swap_ttl_opts t opts) = t"
    by (cases t; cases opts) simp_all
  then show ?thesis
    unfolding mset_encode_def mset_args_Mapping mset_args_Arrays
    by (cases "swap_ttl_opts t opts") simp
qed

lemma mset_keyv_shapes:
  assumes "opts \<noteq> None \<or> (\<forall>o'. t \<noteq> TtlOpts o')"
  shows "mset_keyv k (Mapping m t opts) sched w
     = mset_keyv k (Arrays (map fst m) (map snd m) t opts) sched w"
proof -
  obtain opts' where s: "swap_ttl_opts t opts = (t, opts')"
    and c: "resolve_concurrency opts' (concurrency k)
       = resolve_concurrency (Some (case opts of None \<Rightarrow> empty_opts | Some o' \<Rightarrow> o')) (concurrency k)"
    using assms
    by (cases t; cases opts) (simp_all add: resolve_concurrency_def empty_opts_def)
  show ?thesis
    unfolding mset_keyv_def mset_encode_shapes [of k m t opts w]
    unfolding mset_args_Mapping mset_args_Arrays s
    by (simp add: c)
qed


text \<open>
  Claim C6. The mapping shape of \<^verbatim>\<open>mset\<close> and the array shape on
  \<^verbatim>\<open>Object.keys\<close> and \<^verbatim>\<open>Object.values\<close> of the mapping write the same keys with
  the same encoded values. On every adapter the two calls are the same transition when
  \<^verbatim>\<open>opts\<close> is given or the \<^verbatim>\<open>ttl\<close> argument is no options object; on the default
  in-memory store (a mapping has distinct keys) they always reach the same store and
  result, whatever the two schedules.
\<close>

theorem mset_shapes_agree:
  fixes k :: "'w keyv" and km :: "mem_world keyv"
  shows "fst (mset_args (Mapping m t opts)) = fst (mset_args (Arrays (map fst m) (map snd m) t opts))
   \<and> fst (snd (mset_args (Mapping m t opts)))
       = fst (snd (mset_args (Arrays (map fst m) (map snd m) t opts)))
   \<and> mset_encode k (Mapping m t opts) w
       = mset_encode k (Arrays (map fst m) (map snd m) t opts) w
   \<and> (opts \<noteq> None \<or> (\<forall>o'. t \<noteq> TtlOpts o') \<longrightarrow>
        mset_keyv k (Mapping m t opts) sched w
          = mset_keyv k (Arrays (map fst m) (map snd m) t opts) sched w)
   \<and> (store km = Map_store \<and> distinct (map fst m) \<longrightarrow>
        mset_keyv km (Mapping m t opts) sched wm
          = mset_keyv km (Arrays (map fst m) (map snd m) t opts) sched' wm)"
proof (intro conjI impI)
  show "fst (mset_args (Mapping m t opts)) = fst (mset_args (Arrays (map fst m) (map snd m) t opts))"
    by (simp add: mset_args_Mapping mset_args_Arrays)
  show "fst (snd (mset_args (Mapping m t opts)))
       = fst (snd (mset_args (Arrays (map fst m) (map snd m) t opts)))"
    by (simp add: mset_args_Mapping mset_args_Arrays)
  show "mset_encode k (Mapping m t opts) w
       = mset_encode k (Arrays (map fst m) (map snd m) t opts) w"
    by (rule mset_encode_shapes)
next
  assume "opts \<noteq> None \<or> (\<forall>o'. t \<noteq> TtlOpts o')"
  then show "mset_keyv k (Mapping m t opts) sched w
          = mset_keyv k (Arrays (map fst m) (map snd m) t opts) sched w"
    by (rule mset_keyv_shapes)
next
  assume a: "store km = Map_store \<and> distinct (map fst m)"
  then have st: "store km = Map_store"
    and d1: "distinct (fst (mset_args (Mapping m t opts)))"
    and d2: "distinct (fst (mset_args (Arrays (map fst m) (map snd m) t opts)))"
    by (simp_all add: mset_args_Mapping mset_args_Arrays)
  have ks: "fst (mset_args (Mapping m t opts))
      = fst (mset_args (Arrays (map fst m) (map snd m) t opts))"
    by (simp add: mset_args_Mapping mset_args_Arrays)
  show "mset_keyv km (Mapping m t opts) sched wm
          = mset_keyv km (Arrays (map fst m) (map snd m) t opts) sched' wm"
    unfolding Map_mset [OF st d1] Map_mset [OF st d2] mset_encode_shapes [of km m t opts wm] ks
    by (rule refl)
qed

theorem mset_shapes_agree_witness:
  "mset_keyv (demo_keyv ''keyv'' Undefined)
      (Mapping [(''a'', Num 3), (''b'', Num 3)]
         (TtlOpts \<lparr>raw = False, call_concurrency = Some 1\<rparr>) None) [1] (demo_world [] 100)
    = mset_keyv (demo_keyv ''keyv'' Undefined)
      (Arrays [''a'', ''b''] [Num 3, Num 3]
         (TtlOpts \<lparr>raw = False, call_concurrency = Some 1\<rparr>) None) [0] (demo_world [] 100)
   \<and> mset_keyv (demo_keyv ''keyv'' Undefined)
      (Mapping [(''a'', Num 3), (''b'', Num 3)] (TtlNum 5) None) [1] (demo_world [] 100)
    = mset_keyv (demo_keyv ''keyv'' Undefined)
      (Arrays [''a'', ''b''] [Num 3, Num 3] (TtlNum 5) None) [1] (demo_world [] 100)
   \<and> fst (mset_keyv (demo_keyv ''keyv'' Undefined)
      (Mapping [(''a'', Num 3), (''b'', Num 3)] (TtlNum 5) None) [1] (demo_world [] 100))
    = Inr (Bool True)"
proof -
  let ?k = "demo_keyv ''keyv'' Undefined"
  let ?m = "[(''a'', Num 3), (''b'', Num 3)]"
  let ?o = "TtlOpts \<lparr>raw = False, call_concurrency = Some 1\<rparr>"
  have h5: "store ?k = Map_store \<and> distinct (map fst ?m)"
    by (simp add: demo_keyv_def)
  have h4: "(None :: call_opts option) \<noteq> None \<or> (\<forall>o'. TtlNum 5 \<noteq> TtlOpts o')"
    by simp
  note a = mset_shapes_agree [where m = ?m and t = ?o and opts = None and km = ?k
      and sched = "[1]" and sched' = "[0]" and wm = "demo_world [] 100", THEN conjunct2, THEN conjunct2, THEN conjunct2, THEN conjunct2,
      THEN mp, OF h5]
  note b = mset_shapes_agree [where m = ?m and t = "TtlNum 5" and opts = None and k = ?k
      and sched = "[1]" and w = "demo_world [] 100", THEN conjunct2, THEN conjunct2, THEN conjunct2, THEN conjunct1,
      THEN mp, OF h4]
  have c: "fst (mset_keyv ?k (Mapping ?m (TtlNum 5) None) [1] (demo_world [] 100))
    = Inr (Bool True)"
    by code_simp
  from a b c show ?thesis
    by simp
qed

section \<open>Namespaces\<close>

lemma namespace_of_prefix:
  assumes "CHR '':'' \<notin> set ns"
  shows "takeWhile (\<lambda>c. c \<noteq> CHR '':'') (ns @ '':'' @ key) = ns"
proof -
  have "takeWhile (\<lambda>c. c \<noteq> CHR '':'') (ns @ '':'' @ key)
      = ns @ takeWhile (\<lambda>c. c \<noteq> CHR '':'') ('':'' @ key)"
    using assms by (intro takeWhile_append2) auto
  then show ?thesis by simp
qed

lemma prefix_distinct:
  assumes "namespace ka \<noteq> namespace kb"
    and "CHR '':'' \<notin> set (namespace ka)" and "CHR '':'' \<notin> set (namespace kb)"
  shows "getKeyPrefix ka x \<noteq> getKeyPrefix kb y"
proof
  assume "getKeyPrefix ka x = getKeyPrefix kb y"
  then have "takeWhile (\<lambda>c. c \<noteq> CHR '':'') (namespace ka @ '':'' @ x)
      = takeWhile (\<lambda>c. c \<noteq> CHR '':'') (namespace kb @ '':'' @ y)"
    by (simp only: getKeyPrefix_def)
  then have "namespace ka = namespace kb"
    by (simp only: namespace_of_prefix [OF assms(2)] namespace_of_prefix [OF assms(3)])
  with assms(1) show False by contradiction
qed

lemma Map_get_reads_own_key:
  assumes "store k = Map_store" and "date_now k = time" and "p \<noteq> getKeyPrefix k key"
  shows "fst (get k key opts (w\<lparr>entries := (entries w)(p := u)\<rparr>)) = fst (get k key opts w)"
  using assms
  by (auto simp: get_def Map_store_def map_get_def getPostprocess_def expiration_def delete_def
      map_delete_def split: sum.splits)

lemma Map_get_keeps_other_keys:
  assumes "store k = Map_store" and "p \<noteq> getKeyPrefix k key"
  shows "entries (snd (get k key opts w)) p = entries w p"
  using assms
  by (auto simp: get_def Map_store_def map_get_def getPostprocess_def expiration_def delete_def
      map_delete_def split: sum.splits)

lemma Map_set_keeps_other_keys:
  assumes "store k = Map_store" and "p \<noteq> getKeyPrefix k key"
  shows "entries (snd (set_keyv k key v t w)) p = entries w p"
  using assms
  by (auto simp: set_keyv_def Map_store_def map_set_def split: sum.splits)

lemma Map_delete_keeps_other_keys:
  assumes "store k = Map_store" and "p \<noteq> getKeyPrefix k key"
  shows "entries (snd (delete k key w)) p = entries w p"
  using assms
  by (auto simp: delete_def Map_store_def map_delete_def)


lemma worker_step_world:
  assumes "inflight st \<noteq> []"
  shows "world (worker_step func st) = world st
    \<or> (\<exists>j i x r. j < length (inflight st) \<and> inflight st ! j = (i, Inr x)
          \<and> func x i (world st) = (r, world (worker_step func st)))"
proof -
  define j where "j = pick (schedule st) (length (inflight st))"
  have j: "j < length (inflight st)"
    using assms by (simp add: j_def pick_less)
  obtain i el where p: "inflight st ! j = (i, el)"
    by (cases "inflight st ! j")
  show ?thesis
  proof (cases el)
    case (Inl e)
    with p show ?thesis
      by (simp add: worker_step_def Let_def j_def)
  next
    case (Inr x)
    obtain r w' where f: "func x i (world st) = (r, w')"
      by (cases "func x i (world st)")
    then have "world (worker_step func st) = w'"
      using p Inr by (simp add: worker_step_def Let_def j_def split: sum.split list.split)
    with j p Inr f show ?thesis
      by blast
  qed
qed

lemma run_workers_world:
  assumes inv: "pool_inv items func st" and q: "Q (world st)"
    and pres: "\<And>i x u r u'. i < length items \<Longrightarrow> items ! i = Inr x \<Longrightarrow> Q u
        \<Longrightarrow> func x i u = (r, u') \<Longrightarrow> Q u'"
  shows "Q (world (run_workers func st))"
proof -
  have "(pool_inv items func (run_workers func st) \<and> Q (world (run_workers func st)))
      \<and> inflight (run_workers func st) = []"
  proof (rule run_workers_rule [where P = "\<lambda>s. pool_inv items func s \<and> Q (world s)"])
    show "pool_inv items func st \<and> Q (world st)"
      using inv q by simp
  next
    fix s
    assume a: "pool_inv items func s \<and> Q (world s)" and ne: "inflight s \<noteq> []"
    from worker_step_world [OF ne, of func]
    have "Q (world (worker_step func s))"
    proof
      assume "world (worker_step func s) = world s"
      with a show ?thesis by simp
    next
      assume "\<exists>j i x r. j < length (inflight s) \<and> inflight s ! j = (i, Inr x)
          \<and> func x i (world s) = (r, world (worker_step func s))"
      then obtain j i x r where j: "j < length (inflight s)" and p: "inflight s ! j = (i, Inr x)"
        and f: "func x i (world s) = (r, world (worker_step func s))"
        by blast
      have "(i, Inr x) \<in> set (inflight s)"
        using j p by (metis nth_mem)
      then have "i < length items \<and> Inr x = items ! i"
        using a unfolding pool_inv_def by force
      then have il: "i < length items" and ix: "items ! i = Inr x"
        by simp_all
      from a have qs: "Q (world s)" ..
      show ?thesis
        by (rule pres [OF il ix qs f])
    qed
    with a ne show "pool_inv items func (worker_step func s) \<and> Q (world (worker_step func s))"
      by (simp add: pool_inv_step)
  qed
  then show ?thesis by simp
qed

lemma concurrentMap_world:
  assumes q: "Q w"
    and pres: "\<And>i x u r u'. i < length items \<Longrightarrow> items ! i = Inr x \<Longrightarrow> Q u
        \<Longrightarrow> func x i u = (r, u') \<Longrightarrow> Q u'"
  shows "Q (snd (concurrentMap items func conc sched w))"
proof (cases rule: concurrentMap_modes [of items func conc sched w])
  case unb
  have "length items = 0 \<longrightarrow> items = []" by simp
  then have "pool_inv items func (start_pool sched (length items) items w)"
    by (rule pool_inv_start)
  then have "Q (world (run_workers func (start_pool sched (length items) items w)))"
  proof (rule run_workers_world)
    show "Q (world (start_pool sched (length items) items w))"
      by (simp add: start_pool_def q)
  qed (rule pres)
  then show ?thesis
    unfolding unb by (simp add: unbounded_map_def Let_def)
next
  case (bnd n)
  from bnd(1) have "pool_inv items func (start_pool sched n items w)"
    by (rule pool_inv_start)
  then have "Q (world (run_workers func (start_pool sched n items w)))"
  proof (rule run_workers_world)
    show "Q (world (start_pool sched n items w))"
      by (simp add: start_pool_def q)
  qed (rule pres)
  then show ?thesis
    unfolding bnd(2) by (simp add: bounded_map_def Let_def)
qed

lemma Map_getPostprocess_keeps_other_keys:
  assumes "store k = Map_store" and "p \<noteq> getKeyPrefix k key"
  shows "entries (snd (getPostprocess k key d opts u)) p = entries u p"
  using assms
  by (auto simp: getPostprocess_def expiration_def delete_def Map_store_def map_delete_def
      split: sum.splits)


lemma item_at:
  assumes "i < length xs" and "map Inr xs ! i = Inr x"
  shows "x = xs ! i"
  using assms by simp

lemma Map_mget_keeps_other_keys:
  fixes k :: "mem_world keyv"
  assumes st: "store k = Map_store" and p: "p \<notin> getKeyPrefix k ` set keys"
  shows "entries (snd (mget k keys opts sched w)) p = entries w p"
proof -
  let ?conc = "resolve_concurrency opts (concurrency k)"
  let ?first = "concurrentMap (map Inr (map (getKeyPrefix k) keys))
      (\<lambda>key idx. map_get key (Num (int idx))) ?conc (fst sched) w"
  obtain r1 w1 where f: "?first = (r1, w1)"
    by (cases ?first)
  have "entries (snd ?first) p = entries w p"
  proof (rule concurrentMap_world [where Q = "\<lambda>u. entries u p = entries w p"])
    show "entries w p = entries w p" ..
  next
    fix i x u r u'
    assume "entries u p = entries w p" and "map_get x (Num (int i)) u = (r, u')"
    then show "entries u' p = entries w p"
      by (auto simp: map_get_def)
  qed
  with f have 1: "entries w1 p = entries w p"
    by simp
  show ?thesis
  proof (cases r1)
    case (Inl e)
    then have "mget k keys opts sched w = (Inl e, w1)"
      by (simp only: mget_def Let_def st Map_store_fields option.case f prod.case sum.case)
    with 1 show ?thesis by simp
  next
    case (Inr data)
    let ?second = "concurrentMap (map Inr (zip_js keys data))
        (\<lambda>(key, d) idx. getPostprocess k key d opts) ?conc (snd sched) w1"
    have m: "mget k keys opts sched w = ?second"
      using Inr by (simp only: mget_def Let_def st Map_store_fields option.case f prod.case sum.case)
    have "entries (snd ?second) p = entries w p"
    proof (rule concurrentMap_world [where Q = "\<lambda>u. entries u p = entries w p"])
      show "entries w1 p = entries w p" by (rule 1)
    next
      fix i x u r u'
      assume i: "i < length (map Inr (zip_js keys data))"
        and x: "map Inr (zip_js keys data) ! i = Inr x"
        and u: "entries u p = entries w p"
        and g: "(case x of (key, d) \<Rightarrow> \<lambda>idx. getPostprocess k key d opts) i u = (r, u')"
      from i have ik: "i < length keys" and iz: "i < length (zip_js keys data)"
        by (simp_all add: zip_js_length)
      from iz x have "x = zip_js keys data ! i"
        by (rule item_at)
      with ik have fx: "fst x = keys ! i"
        by (simp add: zip_js_nth)
      from ik p have "p \<noteq> getKeyPrefix k (keys ! i)"
        by auto
      with fx have ne: "p \<noteq> getKeyPrefix k (fst x)"
        by simp
      from g have "getPostprocess k (fst x) (snd x) opts u = (r, u')"
        by (simp add: case_prod_unfold)
      with Map_getPostprocess_keeps_other_keys [OF st ne, of "snd x" opts u]
      have "entries u' p = entries u p"
        by simp
      with u show "entries u' p = entries w p"
        by simp
    qed
    with m show ?thesis by simp
  qed
qed

lemma Map_mset_keeps_other_keys:
  fixes k :: "mem_world keyv"
  assumes st: "store k = Map_store" and p: "p \<notin> getKeyPrefix k ` set (fst (mset_args call))"
  shows "entries (snd (mset_keyv k call sched w)) p = entries w p"
proof -
  obtain keys vals t opts where a: "mset_args call = (keys, vals, t, opts)"
    by (cases "mset_args call")
  show ?thesis
  proof (cases "mset_encode k call w")
    case (Inl e)
    with a show ?thesis
      by (simp add: mset_keyv_def)
  next
    case (Inr encs)
    let ?run = "concurrentMap (map Inr (zip_js (map (getKeyPrefix k) keys) encs))
        (\<lambda>(key, v) idx. map_set key v (ttl_js t)) (resolve_concurrency opts (concurrency k)) sched w"
    obtain r1 w1 where f: "?run = (r1, w1)"
      by (cases ?run)
    have "entries (snd ?run) p = entries w p"
    proof (rule concurrentMap_world [where Q = "\<lambda>u. entries u p = entries w p"])
      show "entries w p = entries w p" ..
    next
      fix i x u r u'
      assume i: "i < length (map Inr (zip_js (map (getKeyPrefix k) keys) encs))"
        and x: "map Inr (zip_js (map (getKeyPrefix k) keys) encs) ! i = Inr x"
        and u: "entries u p = entries w p"
        and g: "(case x of (key, v) \<Rightarrow> \<lambda>idx. map_set key v (ttl_js t)) i u = (r, u')"
      from i have ik: "i < length keys"
        and iz: "i < length (zip_js (map (getKeyPrefix k) keys) encs)"
        by (simp_all add: zip_js_length)
      from iz x have "x = zip_js (map (getKeyPrefix k) keys) encs ! i"
        by (rule item_at)
      with ik have fx: "fst x = getKeyPrefix k (keys ! i)"
        by (simp add: zip_js_nth)
      from ik p a have "p \<noteq> getKeyPrefix k (keys ! i)"
        by auto
      with fx have ne: "p \<noteq> fst x"
        by simp
      from g have "map_set (fst x) (snd x) (ttl_js t) u = (r, u')"
        by (simp add: case_prod_unfold)
      then have "u' = u\<lparr>entries := (entries u)(fst x \<mapsto> snd x)\<rparr>"
        by (simp add: map_set_def)
      with ne u show "entries u' p = entries w p"
        by simp
    qed
    with f have 1: "entries w1 p = entries w p"
      by simp
    have "snd (mset_keyv k call sched w) = w1"
      by (cases r1)
        (simp_all only: mset_keyv_def Let_def a Inr st Map_store_fields option.case f prod.case
          sum.case snd_conv)
    with 1 show ?thesis by simp
  qed
qed

text \<open>
  Claim C7. The physical key is \<^verbatim>\<open>namespace + ":" + key\<close>. Two facades on the same
  in-memory store whose namespaces differ and hold no separator never produce the same
  physical key; \<^verbatim>\<open>set\<close>, \<^verbatim>\<open>delete\<close>, \<^verbatim>\<open>get\<close>, \<^verbatim>\<open>mget\<close> and \<^verbatim>\<open>mset\<close> of
  one leave every entry of the other as it was, and what \<^verbatim>\<open>get\<close> of one resolves to
  does not depend on the entries of the other.
\<close>

theorem namespaces_do_not_collide:
  fixes ka kb :: "mem_world keyv"
  assumes ns: "namespace ka \<noteq> namespace kb"
    and sa: "CHR '':'' \<notin> set (namespace ka)" and sb: "CHR '':'' \<notin> set (namespace kb)"
    and st: "store ka = Map_store" and cl: "date_now ka = time"
  shows "getKeyPrefix ka x = namespace ka @ '':'' @ x
     \<and> getKeyPrefix ka x \<noteq> getKeyPrefix kb y
     \<and> entries (snd (set_keyv ka x v t w)) (getKeyPrefix kb y) = entries w (getKeyPrefix kb y)
     \<and> entries (snd (delete ka x w)) (getKeyPrefix kb y) = entries w (getKeyPrefix kb y)
     \<and> entries (snd (get ka x opts w)) (getKeyPrefix kb y) = entries w (getKeyPrefix kb y)
     \<and> fst (get ka x opts (w\<lparr>entries := (entries w)(getKeyPrefix kb y := u)\<rparr>))
         = fst (get ka x opts w)
     \<and> entries (snd (mget ka keys opts sched w)) (getKeyPrefix kb y) = entries w (getKeyPrefix kb y)
     \<and> entries (snd (mset_keyv ka call sched' w)) (getKeyPrefix kb y)
         = entries w (getKeyPrefix kb y)"
proof -
  have d: "getKeyPrefix kb y \<noteq> getKeyPrefix ka z" for z
    using prefix_distinct [OF ns sa sb, of z y] by simp
  then have ds: "getKeyPrefix kb y \<notin> getKeyPrefix ka ` S" for S
    by auto
  have 1: "getKeyPrefix ka x = namespace ka @ '':'' @ x"
    by (simp add: getKeyPrefix_def)
  have 2: "getKeyPrefix ka x \<noteq> getKeyPrefix kb y"
    using d [of x] by simp
  have 3: "entries (snd (set_keyv ka x v t w)) (getKeyPrefix kb y) = entries w (getKeyPrefix kb y)"
    using st d by (rule Map_set_keeps_other_keys)
  have 4: "entries (snd (delete ka x w)) (getKeyPrefix kb y) = entries w (getKeyPrefix kb y)"
    using st d by (rule Map_delete_keeps_other_keys)
  have 5: "entries (snd (get ka x opts w)) (getKeyPrefix kb y) = entries w (getKeyPrefix kb y)"
    using st d by (rule Map_get_keeps_other_keys)
  have 6: "fst (get ka x opts (w\<lparr>entries := (entries w)(getKeyPrefix kb y := u)\<rparr>))
         = fst (get ka x opts w)"
    using st cl d by (rule Map_get_reads_own_key)
  have 7: "entries (snd (mget ka keys opts sched w)) (getKeyPrefix kb y)
      = entries w (getKeyPrefix kb y)"
    using st ds by (rule Map_mget_keeps_other_keys)
  have 8: "entries (snd (mset_keyv ka call sched' w)) (getKeyPrefix kb y)
      = entries w (getKeyPrefix kb y)"
    using st ds by (rule Map_mset_keeps_other_keys)
  from 1 2 3 4 5 6 7 8 show ?thesis
    by (intro conjI)
qed

theorem namespaces_do_not_collide_witness:
  "getKeyPrefix (demo_keyv ''a'' Undefined) ''x'' = ''a:x''
   \<and> getKeyPrefix (demo_keyv ''a'' Undefined) ''x'' \<noteq> getKeyPrefix (demo_keyv ''b'' Undefined) ''x''
   \<and> entries (snd (set_keyv (demo_keyv ''a'' Undefined) ''x'' (Num 3) Undefined
        (demo_world [(''b:x'', Str ''3/105'')] 100))) ''b:x'' = Some (Str ''3/105'')
   \<and> fst (get (demo_keyv ''a'' Undefined) ''x'' None
        (snd (set_keyv (demo_keyv ''b'' Undefined) ''x'' (Num 3) Undefined (demo_world [] 100))))
       = Inr Undefined"
proof -
  let ?a = "demo_keyv ''a'' Undefined" and ?b = "demo_keyv ''b'' Undefined"
  have 1: "namespace ?a \<noteq> namespace ?b"
    and 2: "CHR '':'' \<notin> set (namespace ?a)" and 3: "CHR '':'' \<notin> set (namespace ?b)"
    and 4: "store ?a = Map_store" and 5: "date_now ?a = time"
    by (simp_all add: demo_keyv_def)
  note t = namespaces_do_not_collide [OF 1 2 3 4 5]
  have w: "snd (set_keyv ?b ''x'' (Num 3) Undefined (demo_world [] 100))
      = (demo_world [] 100)\<lparr>entries := (entries (demo_world [] 100))(getKeyPrefix ?b ''x'' := Some (Str ''3/never''))\<rparr>"
    by (simp add: set_keyv_def setPreprocess_def expires_for_def demo_keyv_def demo_serialize_def
        entry_def Map_store_def map_set_def getKeyPrefix_def demo_world_def)
  have g: "fst (get ?a ''x'' None (demo_world [] 100)) = Inr Undefined"
    by (simp add: get_def demo_keyv_def Map_store_def map_get_def getKeyPrefix_def demo_world_def
        getPostprocess_def decode_def expiration_def)
  have pa: "getKeyPrefix ?a ''x'' = ''a:x''" and pb: "getKeyPrefix ?b ''x'' = ''b:x''"
    by (simp_all add: getKeyPrefix_def demo_keyv_def)
  let ?w1 = "demo_world [(''b:x'', Str ''3/105'')] 100"
  note t1 = t [where x = "''x''" and y = "''x''" and v = "Num 3" and t = Undefined
      and w = ?w1 and opts = None and u = None]
  note t2 = t [where x = "''x''" and y = "''x''" and v = "Num 3" and t = Undefined
      and w = "demo_world [] 100" and opts = None and u = "Some (Str ''3/never'')"]
  have c2: "getKeyPrefix ?a ''x'' \<noteq> getKeyPrefix ?b ''x''"
    by (rule t1 [THEN conjunct2, THEN conjunct1])
  have "entries (snd (set_keyv ?a ''x'' (Num 3) Undefined ?w1)) (getKeyPrefix ?b ''x'')
      = entries ?w1 (getKeyPrefix ?b ''x'')"
    by (rule t1 [THEN conjunct2, THEN conjunct2, THEN conjunct1])
  then have c3: "entries (snd (set_keyv ?a ''x'' (Num 3) Undefined ?w1)) ''b:x''
      = Some (Str ''3/105'')"
    unfolding pb by (simp add: demo_world_def)
  have "fst (get ?a ''x'' None
      ((demo_world [] 100)\<lparr>entries := (entries (demo_world [] 100))
          (getKeyPrefix ?b ''x'' := Some (Str ''3/never''))\<rparr>))
      = fst (get ?a ''x'' None (demo_world [] 100))"
    by (rule t2 [THEN conjunct2, THEN conjunct2, THEN conjunct2, THEN conjunct2,
          THEN conjunct2, THEN conjunct1])
  then have c4: "fst (get ?a ''x'' None
      (snd (set_keyv ?b ''x'' (Num 3) Undefined (demo_world [] 100)))) = Inr Undefined"
    unfolding w g .
  from pa c2 c3 c4 show ?thesis
    by (intro conjI)
qed

section \<open>Decoding of the stored form\<close>

text \<open>
  Claim C8. A stored form that is not a string is passed to the expiration check as it
  is, and the outcome of \<^verbatim>\<open>_getPostprocess\<close> does not depend on the deserializer.
\<close>

theorem stored_form_passes_through:
  assumes "\<forall>s. data \<noteq> Str s"
  shows "decode k data = Inr data
    \<and> getPostprocess k key data opts w = expiration k key opts data w
    \<and> getPostprocess (k\<lparr>deserialize := d\<rparr>) key data opts w = getPostprocess k key data opts w"
proof -
  have a: "decode k data = Inr data" for k :: "'a keyv"
    using assms by (cases data) (simp_all add: decode_def)
  have c: "delete (k\<lparr>deserialize := d\<rparr>) key w = delete k key w"
    by (simp add: delete_def getKeyPrefix_def)
  have b: "expiration (k\<lparr>deserialize := d\<rparr>) key opts data w = expiration k key opts data w"
    by (auto simp: expiration_def c split: sum.split)
  show ?thesis
    by (simp add: getPostprocess_def a b)
qed

theorem stored_form_passes_through_witness:
  "decode (demo_keyv ''keyv'' Undefined) (entry (Num 3) Null) = Inr (entry (Num 3) Null)
   \<and> fst (getPostprocess (demo_keyv ''keyv'' Undefined) ''k'' (entry (Num 3) Null) None
        (demo_world [] 0)) = Inr (Num 3)"
proof -
  have h: "\<forall>s. entry (Num 3) Null \<noteq> Str s"
    by (simp add: entry_def)
  show ?thesis
    using stored_form_passes_through [OF h, of "demo_keyv ''keyv'' Undefined" "''k''" None "demo_world [] 0"]
    by (simp add: expiration_def entry_def expired_def wants_raw_def)
qed

section \<open>The ttl handed to the adapter\<close>

text \<open>
  Claim C9. \<^verbatim>\<open>set(key, value, ttl)\<close> calls the adapter's \<^verbatim>\<open>set\<close> with the physical
  key, the encoded entry and the caller's \<^verbatim>\<open>ttl\<close> argument as it was given: the
  default ttl and the special case of \<^verbatim>\<open>0\<close> change the encoded entry only.
\<close>

theorem set_forwards_ttl:
  assumes "setPreprocess k v t w = Inr enc"
  shows "set_keyv k key v t w =
     (case store_set (store k) (getKeyPrefix k key) enc t w of
        (Inl e, w') \<Rightarrow> (Inl e, w')
      | (Inr r, w') \<Rightarrow> (Inr (Bool True), w'))"
  using assms by (simp add: set_keyv_def)

theorem set_forwards_ttl_witness:
  "set_keyv (log_keyv (Num 5)) ''k'' (Num 3) Undefined []
     = (Inr (Bool True), [(''keyv:k'', Str ''3/105'', Undefined)])
   \<and> set_keyv (log_keyv (Num 5)) ''k'' (Num 3) (Num 0) []
     = (Inr (Bool True), [(''keyv:k'', Str ''3/never'', Num 0)])"
proof -
  have 1: "setPreprocess (log_keyv (Num 5)) (Num 3) Undefined [] = Inr (Str ''3/105'')"
    by (simp add: setPreprocess_def expires_for_def log_keyv_def demo_serialize_def entry_def)
  have 2: "setPreprocess (log_keyv (Num 5)) (Num 3) (Num 0) [] = Inr (Str ''3/never'')"
    by (simp add: setPreprocess_def expires_for_def log_keyv_def demo_serialize_def entry_def)
  show ?thesis
    using set_forwards_ttl [OF 1, of "''k''"] set_forwards_ttl [OF 2, of "''k''"]
    by (simp add: log_keyv_def log_store_def getKeyPrefix_def)
qed

section \<open>A null stored form\<close>

text \<open>
  Claim C10. When the adapter's \<^verbatim>\<open>get\<close> resolves to \<^verbatim>\<open>null\<close>, \<^verbatim>\<open>get\<close> rejects
  with a TypeError (the read of \<^verbatim>\<open>data.expires\<close>) instead of resolving to
  \<^verbatim>\<open>undefined\<close>.
\<close>

theorem null_raw_is_type_error:
  assumes "store_get (store k) (getKeyPrefix k key) Undefined w = (Inr Null, w')"
  shows "get k key opts w = (Inl TypeError, w')"
  using assms by (simp add: get_def getPostprocess_def decode_def expiration_def)

theorem null_raw_is_type_error_witness:
  "get null_keyv ''absent'' None (demo_world [] 0) = (Inl TypeError, demo_world [] 0)"
proof -
  have "store_get (store null_keyv) (getKeyPrefix null_keyv ''absent'') Undefined (demo_world [] 0)
      = (Inr Null, demo_world [] 0)"
    by (simp add: null_keyv_def null_get_def demo_world_def)
  then show ?thesis
    by (rule null_raw_is_type_error)
qed

end
